theory Spec2Isabelle
  imports Main
begin

section \<open>Values of the program\<close>

text \<open>
  The file \<^verbatim>\<open>src/minivdom.js\<close> is embedded shallowly.  A JavaScript value is
  one of the shapes that \<open>RenderDOM\<close> tells apart: the primitives, a plain object
  (an attribute map, its properties in enumeration order), an array (an element
  description) and a function.  Numbers are the integer-valued ones.  A function
  value is the name of its code together with the arguments bound into it, none for
  a function as it is written and those given to \<open>bind\<close> for a bound function; a
  call runs the code on the bound arguments followed by the arguments of the call.
\<close>

datatype jsval =
    JUndefined
  | JNull
  | JBool bool
  | JNum int
  | JStr string
  | JObj "(string \<times> jsval) list"
  | JArr "jsval list"
  | JFun nat "jsval list"

datatype error = TypeError | UserError

text \<open>\<open>!node\<close>: the values JavaScript takes for false.\<close>

fun falsy :: "jsval \<Rightarrow> bool" where
  "falsy JUndefined = True"
| "falsy JNull = True"
| "falsy (JBool b) = (\<not> b)"
| "falsy (JNum n) = (n = 0)"
| "falsy (JStr s) = (s = [])"
| "falsy _ = False"

text \<open>\<open>typeof v == "function"\<close>.\<close>

fun is_function :: "jsval \<Rightarrow> bool" where
  "is_function (JFun f args) = True"
| "is_function _ = False"

text \<open>The primitive values: everything but objects, arrays and functions.\<close>

fun is_primitive :: "jsval \<Rightarrow> bool" where
  "is_primitive (JObj kvs) = False"
| "is_primitive (JArr xs) = False"
| "is_primitive (JFun f args) = False"
| "is_primitive _ = True"

subsection \<open>Conversion to strings\<close>

function string_of_nat :: "nat \<Rightarrow> string" where
  "string_of_nat n =
     (if n < 10 then [''0123456789'' ! n]
      else string_of_nat (n div 10) @ [''0123456789'' ! (n mod 10)])"
  by pat_completeness auto
termination
  by (relation "measure (\<lambda>n. n)") auto

definition string_of_int :: "int \<Rightarrow> string" where
  "string_of_int i = (if i < 0 then CHR ''-'' # string_of_nat (nat (- i)) else string_of_nat (nat i))"

fun join :: "string \<Rightarrow> string list \<Rightarrow> string" where
  "join sep [] = []"
| "join sep [x] = x"
| "join sep (x # y # r) = x @ sep @ join sep (y # r)"

text \<open>
  \<open>String(v)\<close>, the conversion behind template literals, \<open>createTextNode\<close> and
  \<open>setAttribute\<close>.  An array prints its elements separated by commas, with
  \<open>null\<close> and \<open>undefined\<close> printed as nothing.  The source text that a
  function prints as is not part of the model; the fixed string below stands for it.
\<close>

fun to_string :: "jsval \<Rightarrow> string" where
  "to_string JUndefined = ''undefined''"
| "to_string JNull = ''null''"
| "to_string (JBool b) = (if b then ''true'' else ''false'')"
| "to_string (JNum n) = string_of_int n"
| "to_string (JStr s) = s"
| "to_string (JObj kvs) = ''[object Object]''"
| "to_string (JArr xs) =
     join '','' (map (\<lambda>x. if x = JUndefined \<or> x = JNull then [] else to_string x) xs)"
| "to_string (JFun f args) = ''function () { [code] }''"

section \<open>The user interface backend\<close>

text \<open>
  A node of the document is a text node or an element.  An element has a tag name,
  its attributes (name and string value, in the order they were first set), the
  properties bound on it (the callables of an attribute map), its class tokens and
  its children.
\<close>

datatype dom =
    TextNode string
  | Element (tagName: string) (attributes: "(string \<times> string) list")
      (properties: "(string \<times> jsval) list") (classList: "string list")
      (childNodes: "dom list")

text \<open>Assignment to a key of an insertion-ordered table: overwrite in place, or append.\<close>

fun put :: "'k \<Rightarrow> 'v \<Rightarrow> ('k \<times> 'v) list \<Rightarrow> ('k \<times> 'v) list" where
  "put k v [] = [(k, v)]"
| "put k v ((k', v') # r) = (if k = k' then (k, v) # r else (k', v') # put k v r)"

text \<open>Modelled from the spec: the backend's "create a node for a tag name".\<close>

definition createElement :: "string \<Rightarrow> dom" where
  "createElement tag = Element tag [] [] [] []"

text \<open>Modelled from the spec: the backend's "produce a text node from a string".\<close>

definition createTextNode :: "string \<Rightarrow> dom" where
  "createTextNode s = TextNode s"

text \<open>
  Modelled from the spec: the backend's "set a plain attribute (key, string value) on
  a node", for a node that is an element.
\<close>

fun set_attr :: "string \<Rightarrow> string \<Rightarrow> dom \<Rightarrow> dom" where
  "set_attr k v (Element t as ps cs kids) = Element t (put k v as) ps cs kids"
| "set_attr k v (TextNode s) = TextNode s"

text \<open>
  Modelled from the spec: the backend's "bind a callable as a live handler property
  (key, callable) on a node"; in the source \<open>el[k] = v\<close>.
\<close>

fun set_prop :: "string \<Rightarrow> jsval \<Rightarrow> dom \<Rightarrow> dom" where
  "set_prop k v (Element t as ps cs kids) = Element t as (put k v ps) cs kids"
| "set_prop k v (TextNode s) = TextNode s"

text \<open>
  Modelled from the spec: the backend's "add a class token to a node"; a token the
  node already has is not added again.
\<close>

fun classList_add :: "string \<Rightarrow> dom \<Rightarrow> dom" where
  "classList_add c (Element t as ps cs kids) =
     Element t as ps (if c \<in> set cs then cs else cs @ [c]) kids"
| "classList_add c (TextNode s) = TextNode s"

text \<open>Modelled from the spec: the backend's "append a child node to a parent, preserving order".\<close>

fun appendChild :: "dom \<Rightarrow> dom \<Rightarrow> dom" where
  "appendChild (Element t as ps cs kids) child = Element t as ps cs (kids @ [child])"
| "appendChild (TextNode s) child = TextNode s"

text \<open>
  The method call \<open>dom.setAttribute(k, v)\<close> of the source, on a receiver that may be
  \<open>undefined\<close> (nothing was rendered) or a text node: neither has the method, and
  the call throws a \<open>TypeError\<close>.
\<close>

fun setAttribute :: "dom option \<Rightarrow> string \<Rightarrow> string \<Rightarrow> error + dom" where
  "setAttribute None k v = Inl TypeError"
| "setAttribute (Some (TextNode s)) k v = Inl TypeError"
| "setAttribute (Some (Element t as ps cs kids)) k v = Inr (set_attr k v (Element t as ps cs kids))"

text \<open>
  Whether a node matches the selector \<open>[data-uid="id"]\<close>: it is an element whose
  attribute \<open>data-uid\<close> has the value \<open>id\<close>.
\<close>

fun has_uid :: "string \<Rightarrow> dom \<Rightarrow> bool" where
  "has_uid u (TextNode s) = False"
| "has_uid u (Element t as ps cs kids) = (map_of as ''data-uid'' = Some u)"

text \<open>
  Modelled from the spec: the backend's "locate a node anywhere in the current
  document by a previously stamped durable identifier attribute; returns not-found if
  absent".  As \<open>querySelector\<close> does, it returns the first match in document
  order.  The document is the list of its top-level nodes.
\<close>

fun query :: "string \<Rightarrow> dom \<Rightarrow> dom option"
  and querySelector :: "string \<Rightarrow> dom list \<Rightarrow> dom option" where
  "query u (TextNode s) = None"
| "query u (Element t as ps cs kids) =
     (if has_uid u (Element t as ps cs kids) then Some (Element t as ps cs kids)
      else querySelector u kids)"
| "querySelector u [] = None"
| "querySelector u (d # ds) =
     (case query u d of Some e \<Rightarrow> Some e | None \<Rightarrow> querySelector u ds)"

text \<open>
  Modelled from the spec: the backend's "replace an existing node in its current
  position with a new node".  The node replaced is the one \<open>querySelector\<close>
  returned: the first match of the selector in document order.
\<close>

fun replace :: "string \<Rightarrow> dom \<Rightarrow> dom \<Rightarrow> dom"
  and replaceWith :: "string \<Rightarrow> dom \<Rightarrow> dom list \<Rightarrow> dom list" where
  "replace u new (TextNode s) = TextNode s"
| "replace u new (Element t as ps cs kids) =
     (if has_uid u (Element t as ps cs kids) then new
      else Element t as ps cs (replaceWith u new kids))"
| "replaceWith u new [] = []"
| "replaceWith u new (d # ds) =
     (case query u d of Some e \<Rightarrow> replace u new d # ds | None \<Rightarrow> d # replaceWith u new ds)"

section \<open>Reactive cells and the context stack\<close>

text \<open>
  A cell made by \<open>state(x)\<close> holds its value and its subscribers, an object keyed by
  the identifiers of render contexts.  The keys are array indices, which JavaScript
  enumerates in ascending numeric order: the table is kept as the list of its entries
  in that order, and this list is what \<open>Object.entries\<close> returns.
\<close>

record cellstate =
  cell_value :: jsval
  subscribers :: "(nat \<times> jsval) list"

definition state :: "jsval \<Rightarrow> cellstate" where
  "state x = \<lparr>cell_value = x, subscribers = []\<rparr>"

text \<open>\<open>subscribers[id] = comp\<close> and \<open>delete subscribers[id]\<close>.\<close>

fun assign :: "nat \<Rightarrow> 'v \<Rightarrow> (nat \<times> 'v) list \<Rightarrow> (nat \<times> 'v) list" where
  "assign k v [] = [(k, v)]"
| "assign k v ((k', v') # r) =
     (if k = k' then (k, v) # r
      else if k < k' then (k, v) # (k', v') # r
      else (k', v') # assign k v r)"

definition delete_key :: "nat \<Rightarrow> (nat \<times> 'v) list \<Rightarrow> (nat \<times> 'v) list" where
  "delete_key k es = filter (\<lambda>e. fst e \<noteq> k) es"

text \<open>The two lines the source writes to the console while it notifies.\<close>

datatype logline = LogEntry nat jsval | LogFreeing nat

text \<open>
  The mutable state of the program: the cells (addressed by a number; every address
  holds a cell), the counter \<open>_id\<close>, the stack \<open>_id_stack\<close> with its top at the
  end of the list as \<open>push\<close> and \<open>pop\<close> have it, the document, and the console.
\<close>

record world =
  cells :: "nat \<Rightarrow> cellstate"
  id_counter :: nat
  id_stack :: "(nat \<times> jsval) list"
  document :: "dom list"
  console :: "logline list"

definition uid :: "world \<Rightarrow> nat \<times> world" where
  "uid w = (id_counter w, w\<lparr>id_counter := Suc (id_counter w)\<rparr>)"

text \<open>\<open>_id_stack[_id_stack.length - 1]\<close>: \<open>undefined\<close> on the empty stack.\<close>

definition current_id :: "world \<Rightarrow> (nat \<times> jsval) option" where
  "current_id w = (if id_stack w = [] then None else Some (last (id_stack w)))"

text \<open>The getter \<open>value\<close> of a cell.\<close>

definition get_value :: "nat \<Rightarrow> world \<Rightarrow> jsval \<times> world" where
  "get_value c w =
     (case current_id w of
        Some id_comp \<Rightarrow>
          (cell_value (cells w c),
           w\<lparr>cells := (cells w)(c := (cells w c)
               \<lparr>subscribers := assign (fst id_comp) (snd id_comp) (subscribers (cells w c))\<rparr>)\<rparr>)
      | None \<Rightarrow> (cell_value (cells w c), w))"

section \<open>Component functions\<close>

text \<open>
  The body of a component function is a computation that reads cells through their
  getter, one after the other, each read deciding how it goes on, and then returns a
  node description or throws.  Component bodies do not write cells and do not call
  the renderer themselves.  A program maps the name of a function and the arguments
  it is run on to the body that the call runs.
\<close>

datatype comp = Return jsval | Throw | Get nat "jsval \<Rightarrow> comp"

type_synonym prog = "nat \<Rightarrow> jsval list \<Rightarrow> comp"

type_synonym 'a res = "(error + 'a) \<times> world"

primrec run_comp :: "comp \<Rightarrow> world \<Rightarrow> jsval res" where
  "run_comp (Return v) w = (Inr v, w)"
| "run_comp Throw w = (Inl UserError, w)"
| "run_comp (Get c k) w = run_comp (k (fst (get_value c w))) (snd (get_value c w))"

text \<open>The cells a body reads when it runs, in the order it reads them.\<close>

primrec reads_of :: "comp \<Rightarrow> world \<Rightarrow> nat list" where
  "reads_of (Return v) w = []"
| "reads_of Throw w = []"
| "reads_of (Get c k) w = c # reads_of (k (fst (get_value c w))) (snd (get_value c w))"

text \<open>
  A call \<open>v(args)\<close>.  The source has one form of it, \<open>node()\<close>, with no argument.
  Calling a value that is not a function throws a \<open>TypeError\<close>.
\<close>

fun call :: "prog \<Rightarrow> jsval \<Rightarrow> jsval list \<Rightarrow> world \<Rightarrow> jsval res" where
  "call P (JFun f bound) args w = run_comp (P f (bound @ args)) w"
| "call P v args w = (Inl TypeError, w)"

section \<open>The renderer\<close>

subsection \<open>The tag specifier\<close>

text \<open>A character of the class \<open>[^\.#]\<close>.\<close>

definition plain :: "char \<Rightarrow> bool" where
  "plain c = (c \<noteq> CHR ''.'' \<and> c \<noteq> CHR ''#'')"

text \<open>\<open>s.match(/^[^\.#]+/)\<close>: the longest plain prefix, \<open>null\<close> when it is empty.\<close>

definition match_tag :: "string \<Rightarrow> string option" where
  "match_tag s = (if takeWhile plain s = [] then None else Some (takeWhile plain s))"

text \<open>
  \<open>s.match(/\.[^\.#]+/g) || []\<close> for the delimiter \<open>.\<close> and the same with
  \<open>#\<close>: all matches from left to right, each the delimiter and the longest
  non-empty run of plain characters after it, the search resuming after the match.
\<close>

function match_all :: "char \<Rightarrow> string \<Rightarrow> string list" where
  "match_all d [] = []"
| "match_all d (c # cs) =
     (if c = d \<and> takeWhile plain cs \<noteq> []
      then (c # takeWhile plain cs) # match_all d (dropWhile plain cs)
      else match_all d cs)"
  by pat_completeness auto
termination
  by (relation "measure (\<lambda>(d, s). length s)") (auto simp: length_dropWhile_le less_Suc_eq_le)

subsection \<open>Elements\<close>

text \<open>The loop over \<open>Object.entries(attrs)\<close>.\<close>

fun set_attrs :: "(string \<times> jsval) list \<Rightarrow> dom \<Rightarrow> dom" where
  "set_attrs [] el = el"
| "set_attrs ((k, v) # kvs) el =
     set_attrs kvs (if is_function v then set_prop k v el else set_attr k (to_string v) el)"

text \<open>
  The array branch up to the loop over the children: the element with its attributes,
  classes and id, and the children still to render.  \<open>node[0].match\<close> throws a
  \<open>TypeError\<close> when \<open>node[0]\<close> is not a string, and indexing the \<open>null\<close> of a
  failed match throws as well.
\<close>

definition element_of :: "jsval list \<Rightarrow> error + (dom \<times> jsval list)" where
  "element_of node =
     (case node of
        JStr s # rest \<Rightarrow>
          (case match_tag s of
             None \<Rightarrow> Inl TypeError
           | Some tag \<Rightarrow>
               let classes = match_all (CHR ''.'') s;
                   ids = match_all (CHR ''#'') s;
                   attrs = (case rest of JObj kvs # r \<Rightarrow> Some kvs | _ \<Rightarrow> None);
                   children = drop (if attrs \<noteq> None then 2 else 1) node;
                   el = createElement tag;
                   el = (case attrs of Some kvs \<Rightarrow> set_attrs kvs el | None \<Rightarrow> el);
                   el = fold (\<lambda>s. classList_add (tl s)) classes el;
                   el = (case ids of i # r \<Rightarrow> set_attr ''id'' (tl i) el | [] \<Rightarrow> el)
               in Inr (el, children))
      | _ \<Rightarrow> Inl TypeError)"

text \<open>
  \<open>children.forEach\<close>: each child is rendered by \<open>R\<close>, the renderer itself, and
  appended when it rendered to a node.  An exception ends the loop.
\<close>

fun append_children ::
  "(jsval \<Rightarrow> world \<Rightarrow> dom option res option) \<Rightarrow> jsval list \<Rightarrow> dom \<Rightarrow> world \<Rightarrow> dom option res option" where
  "append_children R [] el w = Some (Inr (Some el), w)"
| "append_children R (child # children) el w =
     (case R child w of
        None \<Rightarrow> None
      | Some (Inl e, w') \<Rightarrow> Some (Inl e, w')
      | Some (Inr None, w') \<Rightarrow> append_children R children el w'
      | Some (Inr (Some cnode), w') \<Rightarrow> append_children R children (appendChild el cnode) w')"

subsection \<open>RenderDOM\<close>

text \<open>
  \<open>RenderDOM\<close> recurses through whatever the component functions return, so it need
  not return.  The first argument bounds the depth of the nested calls; \<open>None\<close>
  says that the bound was reached.  A call that returns or throws yields \<open>Some\<close> of
  the outcome and the state it leaves behind.
\<close>

primrec RenderDOM :: "nat \<Rightarrow> prog \<Rightarrow> jsval \<Rightarrow> world \<Rightarrow> dom option res option" where
  "RenderDOM 0 P node w = None"
| "RenderDOM (Suc n) P node w =
     (if falsy node then Some (Inr None, w)
      else if is_function node then
        (let (id', w) = uid w;
             w = w\<lparr>id_stack := id_stack w @ [(id', node)]\<rparr>
         in case call P node [] w of
              (Inl e, w) \<Rightarrow> Some (Inl e, w)
            | (Inr d, w) \<Rightarrow>
                (case RenderDOM n P d w of
                   None \<Rightarrow> None
                 | Some (Inl e, w) \<Rightarrow> Some (Inl e, w)
                 | Some (Inr dom', w) \<Rightarrow>
                     (case setAttribute dom' ''data-uid'' (string_of_nat id') of
                        Inl e \<Rightarrow> Some (Inl e, w)
                      | Inr dom' \<Rightarrow> Some (Inr (Some dom'), w\<lparr>id_stack := butlast (id_stack w)\<rparr>))))
      else case node of
        JArr xs \<Rightarrow>
          (case element_of xs of
             Inl e \<Rightarrow> Some (Inl e, w)
           | Inr (el, children) \<Rightarrow> append_children (RenderDOM n P) children el w)
      | _ \<Rightarrow> Some (Inr (Some (createTextNode (to_string node))), w))"

section \<open>Writing a cell\<close>

text \<open>
  The loop of \<open>set\<close> over \<open>Object.entries(subscribers)\<close>, the entries as they were
  when the loop began.  The variables \<open>el\<close> and \<open>dom\<close>, which the source leaves
  global, are read only inside the iteration that assigned them.  Rendering does not
  touch the document, so the node \<open>el\<close> found before rendering is still the first
  match when it is replaced.
\<close>

fun for_entries :: "nat \<Rightarrow> prog \<Rightarrow> nat \<Rightarrow> (nat \<times> jsval) list \<Rightarrow> world \<Rightarrow> unit res option" where
  "for_entries n P c [] w = Some (Inr (), w)"
| "for_entries n P c ((id', node) # entries) w =
     (let w = w\<lparr>console := console w @ [LogEntry id' node]\<rparr>
      in case querySelector (string_of_nat id') (document w) of
           Some el \<Rightarrow>
             (case call P node [] w of
                (Inl e, w) \<Rightarrow> Some (Inl e, w)
              | (Inr d, w) \<Rightarrow>
                  (case RenderDOM n P d w of
                     None \<Rightarrow> None
                   | Some (Inl e, w) \<Rightarrow> Some (Inl e, w)
                   | Some (Inr dom', w) \<Rightarrow>
                       (case setAttribute dom' ''data-uid'' (string_of_nat id') of
                          Inl e \<Rightarrow> Some (Inl e, w)
                        | Inr dom' \<Rightarrow>
                            for_entries n P c entries
                              (w\<lparr>document := replaceWith (string_of_nat id') dom' (document w)\<rparr>))))
         | None \<Rightarrow>
             for_entries n P c entries
               (w\<lparr>console := console w @ [LogFreeing id'],
                  cells := (cells w)(c := (cells w c)
                    \<lparr>subscribers := delete_key id' (subscribers (cells w c))\<rparr>)\<rparr>))"

text \<open>The method \<open>set\<close> of the cell at address \<open>c\<close>.\<close>

definition set_cell :: "nat \<Rightarrow> prog \<Rightarrow> nat \<Rightarrow> jsval \<Rightarrow> world \<Rightarrow> unit res option" where
  "set_cell n P c x w =
     (let w = w\<lparr>cells := (cells w)(c := (cells w c)\<lparr>cell_value := x\<rparr>)\<rparr>
      in for_entries n P c (subscribers (cells w c)) w)"

section \<open>Notions used to state the properties\<close>

text \<open>
  The state in which \<open>RenderDOM\<close> calls a component function \<open>node\<close>: after
  \<open>let id = uid(); _id_stack.push([id, node])\<close>.
\<close>

definition enter :: "jsval \<Rightarrow> world \<Rightarrow> world" where
  "enter node w =
     w\<lparr>id_counter := Suc (id_counter w), id_stack := id_stack w @ [(id_counter w, node)]\<rparr>"

text \<open>The cell at address \<open>k\<close> has a subscriber entry for the identifier \<open>i\<close>.\<close>

definition present :: "world \<Rightarrow> nat \<Rightarrow> nat \<Rightarrow> bool" where
  "present w k i = (map_of (subscribers (cells w k)) i \<noteq> None)"

text \<open>
  What a state reached by rendering has in common with the state the rendering began
  in: the counter has not gone down, the document, the console and the values of
  the cells are the same, every subscriber entry under an identifier allocated before
  is as it was, no entry has gone, every new entry is under an identifier allocated
  since, and the stack has at most grown.
\<close>

definition extends :: "world \<Rightarrow> world \<Rightarrow> bool" where
  "extends w w' =
     (id_counter w \<le> id_counter w' \<and>
      document w' = document w \<and>
      console w' = console w \<and>
      (\<forall>k. cell_value (cells w' k) = cell_value (cells w k)) \<and>
      (\<forall>k i. i < id_counter w \<longrightarrow>
         map_of (subscribers (cells w' k)) i = map_of (subscribers (cells w k)) i) \<and>
      (\<forall>k i. present w k i \<longrightarrow> present w' k i) \<and>
      (\<forall>k i. present w' k i \<longrightarrow> present w k i \<or> (id_counter w \<le> i \<and> i < id_counter w')) \<and>
      (\<exists>ext. id_stack w' = id_stack w @ ext))"

text \<open>An outcome that returned normally has, moreover, the stack it began with.\<close>

definition balanced :: "world \<Rightarrow> dom option res \<Rightarrow> bool" where
  "balanced w out =
     (extends w (snd out) \<and> (\<not> isl (fst out) \<longrightarrow> id_stack (snd out) = id_stack w))"

text \<open>
  A tag specifier built from a tag name and a list of fragments, each a delimiter
  (\<open>.\<close> for a class, \<open>#\<close> for an id) with its token, written one after the
  other in the order of the list.
\<close>

definition specifier :: "string \<Rightarrow> (char \<times> string) list \<Rightarrow> string" where
  "specifier t fs = t @ concat (map (\<lambda>f. fst f # snd f) fs)"

text \<open>A fragment proper: one of the two delimiters, and a non-empty token of plain characters.\<close>

definition fragment :: "char \<times> string \<Rightarrow> bool" where
  "fragment f =
     ((fst f = CHR ''.'' \<or> fst f = CHR ''#'') \<and> snd f \<noteq> [] \<and> list_all plain (snd f))"

text \<open>The tokens of the fragments with delimiter \<open>d\<close>, in their order.\<close>

definition tokens :: "char \<Rightarrow> (char \<times> string) list \<Rightarrow> string list" where
  "tokens d fs = map snd (filter (\<lambda>f. fst f = d) fs)"

text \<open>
  What the specifier asks of the rendered node: an element of that tag name, whose
  classes are the class tokens, and whose \<open>id\<close> attribute is the first id token
  when there is one.
\<close>

definition described :: "string \<Rightarrow> (char \<times> string) list \<Rightarrow> dom \<Rightarrow> bool" where
  "described t fs el =
     (case el of
        TextNode s \<Rightarrow> False
      | Element t' as ps cs kids \<Rightarrow>
          t' = t \<and> set cs = set (tokens (CHR ''.'') fs) \<and>
          (case tokens (CHR ''#'') fs of
             [] \<Rightarrow> True
           | i # r \<Rightarrow> map_of as ''id'' = Some i))"

text \<open>
  One pass of the loop of \<open>set\<close> over the entries \<open>es\<close>, told by what it does to
  the document: \<open>sweep b es D R D'\<close> says that the pass began with the document
  \<open>D\<close> and ended with \<open>D'\<close>, that \<open>R\<close> are the identifiers it found not
  locatable at the moment it visited them, and that every entry it found locatable
  had its node replaced by a node stamped with the same identifier.  The pass ran to
  the end of the entries when \<open>b\<close> holds; otherwise it was ended by an exception
  while it re-rendered an entry it had found locatable.
\<close>

inductive sweep :: "bool \<Rightarrow> (nat \<times> jsval) list \<Rightarrow> dom list \<Rightarrow> nat set \<Rightarrow> dom list \<Rightarrow> bool" where
  finished: "sweep True [] D {} D"
| aborted: "querySelector (string_of_nat i) D = Some el \<Longrightarrow> sweep False ((i, node) # es) D {} D"
| stale: "querySelector (string_of_nat i) D = None \<Longrightarrow> sweep b es D R D' \<Longrightarrow>
          sweep b ((i, node) # es) D (insert i R) D'"
| live: "querySelector (string_of_nat i) D = Some el \<Longrightarrow> has_uid (string_of_nat i) new \<Longrightarrow>
         sweep b es (replaceWith (string_of_nat i) new D) R D' \<Longrightarrow>
         sweep b ((i, node) # es) D R D'"

text \<open>
  The two statements of \<open>set\<close> that re-render the subscriber \<open>node\<close> of the
  identifier \<open>i\<close>: \<open>dom = RenderDOM(node()); dom.setAttribute("data-uid", id)\<close>.
\<close>

definition rerender :: "nat \<Rightarrow> prog \<Rightarrow> nat \<Rightarrow> jsval \<Rightarrow> world \<Rightarrow> dom res option" where
  "rerender n P i node w =
     (case call P node [] w of
        (Inl e, w1) \<Rightarrow> Some (Inl e, w1)
      | (Inr d, w1) \<Rightarrow>
          (case RenderDOM n P d w1 of
             None \<Rightarrow> None
           | Some (Inl e, w2) \<Rightarrow> Some (Inl e, w2)
           | Some (Inr r, w2) \<Rightarrow>
               (case setAttribute r ''data-uid'' (string_of_nat i) of
                  Inl e \<Rightarrow> Some (Inl e, w2)
                | Inr new \<Rightarrow> Some (Inr new, w2))))"

text \<open>
  What a body returns when its reads take the values of the cells and register
  nothing, and what a call returns then.
\<close>

primrec result_of :: "comp \<Rightarrow> world \<Rightarrow> error + jsval" where
  "result_of (Return v) w = Inr v"
| "result_of Throw w = Inl UserError"
| "result_of (Get c k) w = result_of (k (cell_value (cells w c))) w"

fun returns :: "prog \<Rightarrow> jsval \<Rightarrow> jsval list \<Rightarrow> world \<Rightarrow> error + jsval" where
  "returns P (JFun f bound) args w = result_of (P f (bound @ args)) w"
| "returns P v args w = Inl TypeError"

text \<open>
  Re-rendering a subscriber whose own reads register nothing: the description that
  the component function returns is rendered in the very state in which the function
  was called.
\<close>

definition rerender_unregistered :: "nat \<Rightarrow> prog \<Rightarrow> nat \<Rightarrow> jsval \<Rightarrow> world \<Rightarrow> dom res option" where
  "rerender_unregistered n P i node w =
     (case returns P node [] w of
        Inl e \<Rightarrow> Some (Inl e, w)
      | Inr d \<Rightarrow>
          (case RenderDOM n P d w of
             None \<Rightarrow> None
           | Some (Inl e, w2) \<Rightarrow> Some (Inl e, w2)
           | Some (Inr r, w2) \<Rightarrow>
               (case setAttribute r ''data-uid'' (string_of_nat i) of
                  Inl e \<Rightarrow> Some (Inl e, w2)
                | Inr new \<Rightarrow> Some (Inr new, w2))))"

text \<open>
  One pass of the loop of \<open>set\<close> on the cell at address \<open>c\<close>, told entry by
  entry: \<open>notified F c b es w R w'\<close> says that the pass over the entries \<open>es\<close>
  began in the state \<open>w\<close> and ended in \<open>w'\<close>.  Each entry is visited in its turn
  and written to the console.  An entry whose node is not locatable in the document
  of that moment is deleted from the table of the cell, and its identifier is in
  \<open>R\<close>.  For an entry whose node is locatable, \<open>F\<close> re-renders its component;
  the node it yields takes the place of the located node, and the pass goes on.  The
  pass ran to the end of the entries when \<open>b\<close> holds; otherwise the re-rendering of
  an entry threw, and the pass ended in the state of the exception.
\<close>

inductive notified ::
  "(nat \<Rightarrow> jsval \<Rightarrow> world \<Rightarrow> dom res option) \<Rightarrow> nat \<Rightarrow> bool \<Rightarrow> (nat \<times> jsval) list \<Rightarrow> world \<Rightarrow>
   nat set \<Rightarrow> world \<Rightarrow> bool" where
  finished: "notified F c True [] w {} w"
| stale: "querySelector (string_of_nat i) (document w) = None \<Longrightarrow>
          notified F c b es
            (w\<lparr>console := console w @ [LogEntry i node, LogFreeing i],
               cells := (cells w)(c := (cells w c)
                 \<lparr>subscribers := delete_key i (subscribers (cells w c))\<rparr>)\<rparr>) R w' \<Longrightarrow>
          notified F c b ((i, node) # es) w (insert i R) w'"
| live: "querySelector (string_of_nat i) (document w) = Some el \<Longrightarrow>
         F i node (w\<lparr>console := console w @ [LogEntry i node]\<rparr>) = Some (Inr new, w2) \<Longrightarrow>
         notified F c b es
           (w2\<lparr>document := replaceWith (string_of_nat i) new (document w2)\<rparr>) R w' \<Longrightarrow>
         notified F c b ((i, node) # es) w R w'"
| aborted: "querySelector (string_of_nat i) (document w) = Some el \<Longrightarrow>
            F i node (w\<lparr>console := console w @ [LogEntry i node]\<rparr>) = Some (Inl e, w') \<Longrightarrow>
            notified F c False ((i, node) # es) w {} w'"

section \<open>The program of the source file\<close>

text \<open>
  The two cells of the source, \<open>counter\<close> at address 0 and \<open>stuff\<close> at address 1,
  and its functions: \<open>myApp\<close> (0), \<open>myComp\<close> (1) and the two click handlers (2
  and 3).  The handlers are values only: rendering binds them as properties and never
  calls them, and their code is not part of the model.
\<close>

text \<open>\<open>v.title\<close>: reading a property of \<open>undefined\<close> or \<open>null\<close> throws.\<close>

fun title_of :: "jsval \<Rightarrow> jsval option" where
  "title_of JUndefined = None"
| "title_of JNull = None"
| "title_of (JObj kvs) = Some (case map_of kvs ''title'' of Some t \<Rightarrow> t | None \<Rightarrow> JUndefined)"
| "title_of v = Some JUndefined"

definition myComp :: comp where
  "myComp = Get 0 (\<lambda>count. Return (JArr
     [JStr ''div'',
      JArr [JStr ''p'', JStr (''current count: '' @ to_string count)],
      JArr [JStr ''button'', JObj [(''onclick'', JFun 2 [])], JStr ''increment''],
      JArr [JStr ''button'', JObj [(''onclick'', JFun 3 [])], JStr ''change title'']]))"

definition myApp :: comp where
  "myApp = Get 1 (\<lambda>stuff.
     case title_of stuff of
       None \<Rightarrow> Throw
     | Some title \<Rightarrow> Get 0 (\<lambda>count. Return (JArr
         [JStr ''div'',
          JArr [JStr ''h1'', title, JStr ('' '' @ to_string count)],
          JFun 1 []])))"

definition source_prog :: prog where
  "source_prog f args = (if f = 0 then myApp else if f = 1 then myComp else Return JUndefined)"

definition source_world :: world where
  "source_world =
     \<lparr>cells = (\<lambda>c. if c = 0 then state (JNum 0)
                    else if c = 1 then state (JObj [(''title'', JStr ''hello world'')])
                    else state JUndefined),
      id_counter = 0, id_stack = [], document = [], console = []\<rparr>"

text \<open>
  \<open>document.body.appendChild(node)\<close> on the document whose only node is an empty
  \<open>body\<close>.
\<close>

definition mount :: "dom \<Rightarrow> world \<Rightarrow> world" where
  "mount node w = w\<lparr>document := [appendChild (createElement ''body'') node]\<rparr>"

section \<open>Small programs\<close>

text \<open>
  Function 0 returns the first argument it is run on, \<open>undefined\<close> when there
  is none; every other function throws.
\<close>

definition sample_prog :: prog where
  "sample_prog f args =
     (if f = 0 then Return (case args of [] \<Rightarrow> JUndefined | a # r \<Rightarrow> a) else Throw)"

text \<open>What a test looks at in an outcome: the result, the counter and the stack.\<close>

definition outcome :: "'a res option \<Rightarrow> ((error + 'a) \<times> nat \<times> (nat \<times> jsval) list) option" where
  "outcome out = map_option (\<lambda>(r, w). (r, id_counter w, id_stack w)) out"

text \<open>
  What a test looks at after an operation: the result, the counter, the stack, the
  subscriber tables of the cells named, and the console.
\<close>

definition view ::
  "nat list \<Rightarrow> 'a res option \<Rightarrow>
   ((error + 'a) \<times> nat \<times> (nat \<times> jsval) list \<times> (nat \<times> jsval) list list \<times> logline list) option" where
  "view cs out =
     map_option (\<lambda>(r, w). (r, id_counter w, id_stack w, map (\<lambda>c. subscribers (cells w c)) cs, console w)) out"

text \<open>
  The state after the last line of the source,
  \<open>document.body.appendChild(RenderDOM(myApp))\<close>.
\<close>

definition after_first_render :: world where
  "after_first_render =
     (case RenderDOM 6 source_prog (JFun 0 []) source_world of
        Some (Inr (Some node), w) \<Rightarrow> mount node w
      | _ \<Rightarrow> source_world)"

text \<open>
  The state after one more \<open>RenderDOM(myApp)\<close> whose result is not put into the
  document: its two contexts are subscribers with no node to locate.
\<close>

definition after_second_render :: world where
  "after_second_render =
     (case RenderDOM 6 source_prog (JFun 0 []) after_first_render of
        Some (r, w) \<Rightarrow> w
      | None \<Rightarrow> after_first_render)"

text \<open>
  A component that reads the cell at address 1 only while the cell at address 0 holds
  a truthy value: \<open>() => flag.value ? ["p", `${other.value}`] : ["p"]\<close>.
\<close>

definition cond_prog :: prog where
  "cond_prog f args =
     Get 0 (\<lambda>flag. if falsy flag then Return (JArr [JStr ''p''])
                     else Get 1 (\<lambda>other. Return (JArr [JStr ''p'', JStr (to_string other)])))"

definition cond_world :: world where
  "cond_world =
     \<lparr>cells = (\<lambda>c. if c = 0 then state (JBool True)
                    else if c = 1 then state (JStr ''x'')
                    else state JUndefined),
      id_counter = 0, id_stack = [], document = [], console = []\<rparr>"

text \<open>The component rendered once and put into the document.\<close>

definition cond_mounted :: world where
  "cond_mounted =
     (case RenderDOM 3 cond_prog (JFun 0 []) cond_world of
        Some (Inr (Some node), w) \<Rightarrow> mount node w
      | _ \<Rightarrow> cond_world)"

section \<open>What the operations leave unchanged\<close>

declare RenderDOM.simps(2) [simp del]
declare for_entries.simps(2) [simp del]

lemma RenderDOM_falsy: "falsy node \<Longrightarrow> RenderDOM (Suc n) P node w = Some (Inr None, w)"
  by (simp add: RenderDOM.simps(2))

lemma RenderDOM_JFun:
  "RenderDOM (Suc n) P (JFun f args) w =
     (case run_comp (P f args) (enter (JFun f args) w) of
        (Inl e, w1) \<Rightarrow> Some (Inl e, w1)
      | (Inr d, w1) \<Rightarrow>
          (case RenderDOM n P d w1 of
             None \<Rightarrow> None
           | Some (Inl e, w2) \<Rightarrow> Some (Inl e, w2)
           | Some (Inr dom', w2) \<Rightarrow>
               (case setAttribute dom' ''data-uid'' (string_of_nat (id_counter w)) of
                  Inl e \<Rightarrow> Some (Inl e, w2)
                | Inr dom'' \<Rightarrow> Some (Inr (Some dom''), w2\<lparr>id_stack := butlast (id_stack w2)\<rparr>))))"
  by (simp add: RenderDOM.simps(2) uid_def enter_def)

lemma RenderDOM_JArr:
  "RenderDOM (Suc n) P (JArr xs) w =
     (case element_of xs of
        Inl e \<Rightarrow> Some (Inl e, w)
      | Inr (el, children) \<Rightarrow> append_children (RenderDOM n P) children el w)"
  by (simp add: RenderDOM.simps(2))

lemma RenderDOM_text:
  "\<not> falsy node \<Longrightarrow> \<not> is_function node \<Longrightarrow> \<forall>xs. node \<noteq> JArr xs \<Longrightarrow>
   RenderDOM (Suc n) P node w = Some (Inr (Some (TextNode (to_string node))), w)"
  by (cases node) (simp_all add: RenderDOM.simps(2) createTextNode_def)

lemma get_value_frame:
  "id_stack (snd (get_value c w)) = id_stack w"
  "id_counter (snd (get_value c w)) = id_counter w"
  "document (snd (get_value c w)) = document w"
  "console (snd (get_value c w)) = console w"
  "cell_value (cells (snd (get_value c w)) k) = cell_value (cells w k)"
  by (simp_all add: get_value_def split: option.splits)

lemma run_comp_frame:
  "id_stack (snd (run_comp b w)) = id_stack w \<and>
   id_counter (snd (run_comp b w)) = id_counter w \<and>
   document (snd (run_comp b w)) = document w \<and>
   console (snd (run_comp b w)) = console w \<and>
   (\<forall>k. cell_value (cells (snd (run_comp b w)) k) = cell_value (cells w k))"
  by (induction b arbitrary: w) (simp_all add: get_value_frame)

lemma call_frame:
  "id_stack (snd (call P v args w)) = id_stack w \<and>
   id_counter (snd (call P v args w)) = id_counter w \<and>
   document (snd (call P v args w)) = document w \<and>
   console (snd (call P v args w)) = console w \<and>
   (\<forall>k. cell_value (cells (snd (call P v args w)) k) = cell_value (cells w k))"
  by (cases v) (simp_all add: run_comp_frame)

lemma map_of_assign: "map_of (assign k v es) = (map_of es)(k \<mapsto> v)"
  by (induction es) (auto simp: fun_upd_twist)

lemma map_of_delete_key: "map_of (delete_key k es) = (map_of es)(k := None)"
  by (induction es) (auto simp: delete_key_def)

lemma get_value_empty: "id_stack w = [] \<Longrightarrow> snd (get_value c w) = w"
  by (simp add: get_value_def current_id_def)

lemma get_value_subs:
  "id_stack w \<noteq> [] \<Longrightarrow> j \<noteq> fst (last (id_stack w)) \<Longrightarrow>
   map_of (subscribers (cells (snd (get_value c w)) k)) j = map_of (subscribers (cells w k)) j"
  by (simp add: get_value_def current_id_def map_of_assign)

lemma run_comp_empty: "id_stack w = [] \<Longrightarrow> snd (run_comp b w) = w"
  by (induction b arbitrary: w) (simp_all add: get_value_empty)

lemma run_comp_subs:
  "id_stack w \<noteq> [] \<Longrightarrow> j \<noteq> fst (last (id_stack w)) \<Longrightarrow>
   map_of (subscribers (cells (snd (run_comp b w)) k)) j = map_of (subscribers (cells w k)) j"
  by (induction b arbitrary: w) (simp_all add: get_value_subs get_value_frame)

lemma call_empty: "id_stack w = [] \<Longrightarrow> snd (call P v args w) = w"
  by (cases v) (simp_all add: run_comp_empty)

lemma call_subs:
  "id_stack w \<noteq> [] \<Longrightarrow> j \<noteq> fst (last (id_stack w)) \<Longrightarrow>
   map_of (subscribers (cells (snd (call P v args w)) k)) j = map_of (subscribers (cells w k)) j"
  by (cases v) (simp_all add: run_comp_subs)

lemma get_value_keeps: "present w k i \<Longrightarrow> present (snd (get_value c w)) k i"
  by (auto simp: present_def get_value_def current_id_def map_of_assign)

lemma run_comp_keeps: "present w k i \<Longrightarrow> present (snd (run_comp b w)) k i"
  by (induction b arbitrary: w) (simp_all add: get_value_keeps)

lemma call_keeps: "present w k i \<Longrightarrow> present (snd (call P v args w)) k i"
  by (cases v) (simp_all add: run_comp_keeps)

lemma extends_refl: "extends w w"
  by (simp add: extends_def)

lemma extends_trans:
  assumes "extends w1 w2" and "extends w2 w3"
  shows "extends w1 w3"
proof -
  have c: "id_counter w1 \<le> id_counter w2" "id_counter w2 \<le> id_counter w3"
    using assms by (simp_all add: extends_def)
  have new: "\<And>k i. present w3 k i \<Longrightarrow> present w1 k i \<or> (id_counter w1 \<le> i \<and> i < id_counter w3)"
  proof -
    fix k i assume "present w3 k i"
    with assms(2) have "present w2 k i \<or> (id_counter w2 \<le> i \<and> i < id_counter w3)"
      by (simp add: extends_def)
    moreover have "present w2 k i \<Longrightarrow> present w1 k i \<or> (id_counter w1 \<le> i \<and> i < id_counter w2)"
      using assms(1) by (simp add: extends_def)
    ultimately show "present w1 k i \<or> (id_counter w1 \<le> i \<and> i < id_counter w3)"
      using c by auto
  qed
  have old: "\<And>k i. i < id_counter w1 \<Longrightarrow>
      map_of (subscribers (cells w3 k)) i = map_of (subscribers (cells w1 k)) i"
  proof -
    fix k i assume i: "i < id_counter w1"
    with c have "i < id_counter w2" by simp
    with assms(2) have "map_of (subscribers (cells w3 k)) i = map_of (subscribers (cells w2 k)) i"
      by (simp add: extends_def)
    with assms(1) i show "map_of (subscribers (cells w3 k)) i = map_of (subscribers (cells w1 k)) i"
      by (simp add: extends_def)
  qed
  have stack: "\<exists>ext. id_stack w3 = id_stack w1 @ ext"
    using assms by (auto simp: extends_def)
  have rest: "id_counter w1 \<le> id_counter w3" "document w3 = document w1" "console w3 = console w1"
    "\<forall>k. cell_value (cells w3 k) = cell_value (cells w1 k)"
    "\<forall>k i. present w1 k i \<longrightarrow> present w3 k i"
    using assms by (simp_all add: extends_def)
  show ?thesis
    unfolding extends_def using rest old new stack by blast
qed

lemma run_comp_enter_stack:
  "run_comp b (enter node w) = (r, w1) \<Longrightarrow> id_stack w1 = id_stack w @ [(id_counter w, node)]"
  using run_comp_frame[of b "enter node w"] by (simp add: enter_def)

lemma run_comp_enter_extends:
  assumes "run_comp b (enter node w) = (r, w1)"
  shows "extends w w1"
proof -
  have w1: "w1 = snd (run_comp b (enter node w))" using assms by simp
  have "\<And>k j. j < id_counter w \<Longrightarrow>
      map_of (subscribers (cells w1 k)) j = map_of (subscribers (cells w k)) j"
  proof -
    fix k j assume "j < id_counter w"
    then have "j \<noteq> fst (last (id_stack (enter node w)))" by (simp add: enter_def)
    moreover have "id_stack (enter node w) \<noteq> []" by (simp add: enter_def)
    ultimately have "map_of (subscribers (cells w1 k)) j =
        map_of (subscribers (cells (enter node w) k)) j"
      unfolding w1 by (rule run_comp_subs[rotated])
    then show "map_of (subscribers (cells w1 k)) j = map_of (subscribers (cells w k)) j"
      by (simp add: enter_def)
  qed
  moreover have "\<And>k i. present w k i \<Longrightarrow> present w1 k i"
    using run_comp_keeps[of "enter node w" _ _ b] by (simp add: w1 present_def enter_def)
  moreover have "\<And>k i. present w1 k i \<Longrightarrow>
      present w k i \<or> (id_counter w \<le> i \<and> i < id_counter w1)"
  proof -
    fix k i assume p: "present w1 k i"
    have c1: "id_counter w1 = Suc (id_counter w)"
      using run_comp_frame[of b "enter node w"] by (simp add: w1 enter_def)
    show "present w k i \<or> (id_counter w \<le> i \<and> i < id_counter w1)"
    proof (cases "i = id_counter w")
      case True
      with c1 show ?thesis by simp
    next
      case False
      then have "i \<noteq> fst (last (id_stack (enter node w)))" by (simp add: enter_def)
      moreover have "id_stack (enter node w) \<noteq> []" by (simp add: enter_def)
      ultimately have "map_of (subscribers (cells w1 k)) i =
          map_of (subscribers (cells (enter node w) k)) i"
        unfolding w1 by (rule run_comp_subs[rotated])
      with p show ?thesis by (simp add: present_def enter_def)
    qed
  qed
  ultimately show ?thesis
    unfolding extends_def using run_comp_frame[of b "enter node w"]
    by (simp add: enter_def w1)
qed

lemma append_children_balanced:
  assumes R: "\<And>node w out. R node w = Some out \<Longrightarrow> balanced w out"
  shows "append_children R cs el w = Some out \<Longrightarrow> balanced w out"
proof (induction cs arbitrary: el w)
  case Nil
  then show ?case by (auto simp: balanced_def extends_refl)
next
  case (Cons child cs)
  show ?case
  proof (cases "R child w")
    case None
    with Cons.prems show ?thesis by simp
  next
    case (Some o1)
    obtain r1 w1 where o1: "o1 = (r1, w1)" by (cases o1)
    from R[OF Some] have b1: "balanced w (r1, w1)" by (simp add: o1)
    show ?thesis
    proof (cases r1)
      case (Inl e)
      with Cons.prems Some o1 have "out = (Inl e, w1)" by simp
      with b1 Inl show ?thesis by (simp add: balanced_def)
    next
      case (Inr x)
      with Cons.prems Some o1 obtain el' where
        "append_children R cs el' w1 = Some out"
        by (cases x) auto
      from Cons.IH[OF this] have b2: "balanced w1 out" .
      from b1 Inr have s1: "id_stack w1 = id_stack w" by (simp add: balanced_def)
      from b1 b2 have "extends w (snd out)"
        by (auto simp: balanced_def intro: extends_trans)
      with b2 s1 show ?thesis by (simp add: balanced_def)
    qed
  qed
qed

lemma RenderDOM_balanced:
  "RenderDOM n P node w = Some out \<Longrightarrow> balanced w out"
proof (induction n arbitrary: node w out)
  case 0
  then show ?case by simp
next
  case (Suc n)
  show ?case
  proof (cases "falsy node")
    case True
    with Suc.prems show ?thesis by (auto simp: RenderDOM_falsy balanced_def extends_refl)
  next
    case nf: False
    show ?thesis
    proof (cases node)
      case (JFun f args)
      obtain r1 w1 where c: "run_comp (P f args) (enter node w) = (r1, w1)"
        by (cases "run_comp (P f args) (enter node w)")
      note e01 = run_comp_enter_extends[OF c]
      note st1 = run_comp_enter_stack[OF c]
      note prem = Suc.prems[unfolded JFun RenderDOM_JFun c[unfolded JFun]]
      show ?thesis
      proof (cases r1)
        case (Inl e)
        with prem have "out = (Inl e, w1)" by simp
        with e01 show ?thesis by (simp add: balanced_def)
      next
        case (Inr d)
        with prem obtain r2 w2 where r2: "RenderDOM n P d w1 = Some (r2, w2)"
          by (cases "RenderDOM n P d w1") auto
        from Suc.IH[OF r2] have b2: "balanced w1 (r2, w2)" .
        then have e12: "extends w1 w2" by (simp add: balanced_def)
        have e02: "extends w w2" using e01 e12 by (rule extends_trans)
        show ?thesis
        proof (cases r2)
          case (Inl e)
          with prem Inr r2 have "out = (Inl e, w2)" by simp
          with e02 show ?thesis by (simp add: balanced_def)
        next
          case r2r: (Inr dom')
          with b2 have st2: "id_stack w2 = id_stack w @ [(id_counter w, node)]"
            by (simp add: balanced_def st1)
          show ?thesis
          proof (cases "setAttribute dom' ''data-uid'' (string_of_nat (id_counter w))")
            case (Inl e)
            with prem Inr r2 r2r have "out = (Inl e, w2)" by simp
            with e02 show ?thesis by (simp add: balanced_def)
          next
            case sr: (Inr dom'')
            with prem Inr r2 r2r
            have o: "out = (Inr (Some dom''), w2\<lparr>id_stack := butlast (id_stack w2)\<rparr>)"
              by simp
            have "extends w (w2\<lparr>id_stack := butlast (id_stack w2)\<rparr>)"
              using e02 st2 by (simp add: extends_def present_def)
            with o st2 show ?thesis by (simp add: balanced_def)
          qed
        qed
      qed
    next
      case (JArr xs)
      show ?thesis
      proof (cases "element_of xs")
        case (Inl e)
        with Suc.prems JArr show ?thesis
          by (auto simp: RenderDOM_JArr balanced_def extends_refl)
      next
        case (Inr p)
        obtain el children where p: "p = (el, children)" by (cases p)
        from Suc.prems JArr Inr p
        have "append_children (RenderDOM n P) children el w = Some out"
          by (simp add: RenderDOM_JArr)
        then show ?thesis
          by (rule append_children_balanced[rotated]) (rule Suc.IH)
      qed
    qed (use Suc.prems nf in \<open>auto simp: RenderDOM_text balanced_def extends_refl\<close>)
  qed
qed

section \<open>The bound on the depth\<close>

text \<open>
  The bound only cuts a computation short: an outcome reached within a bound is the
  outcome within every larger bound.
\<close>

lemma append_children_mono:
  assumes R: "\<And>node w out. R node w = Some out \<Longrightarrow> R' node w = Some out"
  shows "append_children R cs el w = Some out \<Longrightarrow> append_children R' cs el w = Some out"
proof (induction cs arbitrary: el w)
  case Nil
  then show ?case by simp
next
  case (Cons child cs)
  show ?case
  proof (cases "R child w")
    case None
    with Cons.prems show ?thesis by simp
  next
    case (Some o1)
    obtain r1 w1 where o1: "o1 = (r1, w1)" by (cases o1)
    from R[OF Some] have s': "R' child w = Some (r1, w1)" by (simp add: o1)
    show ?thesis
    proof (cases r1)
      case (Inl e)
      with Cons.prems Some o1 have "out = (Inl e, w1)" by simp
      with s' Inl show ?thesis by simp
    next
      case (Inr x)
      show ?thesis
      proof (cases x)
        case None
        with Cons.prems Some o1 Inr have "append_children R cs el w1 = Some out" by simp
        from Cons.IH[OF this] s' Inr None show ?thesis by simp
      next
        case (Some cnode)
        with Cons.prems \<open>R child w = Some o1\<close> o1 Inr
        have "append_children R cs (appendChild el cnode) w1 = Some out" by simp
        from Cons.IH[OF this] s' Inr Some show ?thesis by simp
      qed
    qed
  qed
qed

lemma RenderDOM_Suc:
  "RenderDOM n P node w = Some out \<Longrightarrow> RenderDOM (Suc n) P node w = Some out"
proof (induction n arbitrary: node w out)
  case 0
  then show ?case by simp
next
  case (Suc n)
  show ?case
  proof (cases "falsy node")
    case True
    with Suc.prems show ?thesis by (simp add: RenderDOM_falsy)
  next
    case nf: False
    show ?thesis
    proof (cases node)
      case (JFun f args)
      obtain r1 w1 where c: "run_comp (P f args) (enter node w) = (r1, w1)"
        by (cases "run_comp (P f args) (enter node w)")
      note prem = Suc.prems[unfolded JFun RenderDOM_JFun c[unfolded JFun]]
      show ?thesis
      proof (cases r1)
        case (Inl e)
        with prem c JFun show ?thesis by (simp add: RenderDOM_JFun)
      next
        case (Inr d)
        with prem obtain o2 where r2: "RenderDOM n P d w1 = Some o2"
          by (cases "RenderDOM n P d w1") auto
        from Suc.IH[OF r2] have "RenderDOM (Suc n) P d w1 = Some o2" .
        with prem c JFun Inr r2 show ?thesis by (simp add: RenderDOM_JFun[of "Suc n"])
      qed
    next
      case (JArr xs)
      show ?thesis
      proof (cases "element_of xs")
        case (Inl e)
        with Suc.prems JArr show ?thesis by (simp add: RenderDOM_JArr)
      next
        case (Inr p)
        obtain el children where p: "p = (el, children)" by (cases p)
        from Suc.prems JArr Inr p
        have "append_children (RenderDOM n P) children el w = Some out"
          by (simp add: RenderDOM_JArr)
        then have "append_children (RenderDOM (Suc n) P) children el w = Some out"
          by (rule append_children_mono[rotated]) (rule Suc.IH)
        with JArr Inr p show ?thesis by (simp add: RenderDOM_JArr[of "Suc n"])
      qed
    qed (use Suc.prems nf in \<open>simp_all add: RenderDOM_text\<close>)
  qed
qed

lemma RenderDOM_more_fuel:
  "RenderDOM n P node w = Some out \<Longrightarrow> RenderDOM (n + k) P node w = Some out"
  by (induction k) (simp_all add: RenderDOM_Suc)

section \<open>Primitive input\<close>

text \<open>
  Claim C4, as the code has it.  The first test of \<open>RenderDOM\<close> is \<open>!node\<close>, so a
  primitive renders to a text node carrying \<open>String(node)\<close> exactly when it is
  truthy.  The falsy primitives, among them \<open>0\<close>, \<open>false\<close> and the empty
  string, render to nothing, as \<open>undefined\<close> and \<open>null\<close> do.
\<close>

theorem primitive_renders_text_unless_falsy:
  "is_primitive v \<Longrightarrow>
   RenderDOM (Suc n) P v w =
     Some (Inr (if falsy v then None else Some (TextNode (to_string v))), w)"
  by (cases v) (simp_all add: RenderDOM_falsy RenderDOM_text)

theorem primitive_renders_text_unless_falsy_witness:
  "is_primitive (JNum 42) \<and>
   RenderDOM 1 source_prog (JNum 42) source_world =
     Some (Inr (Some (TextNode ''42'')), source_world)"
  using primitive_renders_text_unless_falsy [of "JNum 42" 0 source_prog source_world]
  by (simp add: string_of_int_def)

text \<open>
  Claim C4 as stated fails: for the primitives \<open>0\<close>, \<open>false\<close> and \<open>""\<close> no text
  node is produced.
\<close>

theorem falsy_primitive_renders_nothing:
  "RenderDOM 1 source_prog (JNum 0) source_world = Some (Inr None, source_world) \<and>
   RenderDOM 1 source_prog (JBool False) source_world = Some (Inr None, source_world) \<and>
   RenderDOM 1 source_prog (JStr []) source_world = Some (Inr None, source_world)"
  by (simp add: RenderDOM_falsy)

section \<open>The context stack around a component\<close>

lemma outcomeD:
  "outcome out = Some (r, c, st) \<Longrightarrow>
   \<exists>w'. out = Some (r, w') \<and> id_counter w' = c \<and> id_stack w' = st"
  by (auto simp: outcome_def)

lemma RenderDOM_JFun_throws:
  assumes "RenderDOM n P (JFun f args) w = Some (Inl e, w')"
  shows "\<exists>ext. id_stack w' = id_stack w @ (id_counter w, JFun f args) # ext"
proof (cases n)
  case 0
  with assms show ?thesis by simp
next
  case (Suc m)
  obtain r1 w1 where c: "run_comp (P f args) (enter (JFun f args) w) = (r1, w1)"
    by (cases "run_comp (P f args) (enter (JFun f args) w)")
  note st1 = run_comp_enter_stack[OF c]
  note prem = assms[unfolded Suc RenderDOM_JFun c]
  show ?thesis
  proof (cases r1)
    case (Inl e1)
    with prem have "w' = w1" by simp
    with st1 show ?thesis by simp
  next
    case (Inr d)
    with prem obtain r2 w2 where r2: "RenderDOM m P d w1 = Some (r2, w2)"
      by (cases "RenderDOM m P d w1") auto
    from RenderDOM_balanced[OF r2] obtain ext where "id_stack w2 = id_stack w1 @ ext"
      by (auto simp: balanced_def extends_def)
    with st1 have st2: "id_stack w2 = id_stack w @ (id_counter w, JFun f args) # ext" by simp
    have "w' = w2"
    proof (cases r2)
      case (Inl e2)
      with prem Inr r2 show ?thesis by simp
    next
      case r2r: (Inr dom')
      with prem Inr r2 show ?thesis
        by (cases "setAttribute dom' ''data-uid'' (string_of_nat (id_counter w))") simp_all
    qed
    with st2 show ?thesis by blast
  qed
qed

text \<open>
  Claim C1, as the code has it.  \<open>RenderDOM\<close> has no handler around the call of
  the component: the \<open>pop\<close> is the last statement but one of the branch and runs
  only when everything before it returned.  So after a call that returns, whatever
  the input, the Context Stack is what it was before the call; after a call that
  throws, the stack is the old one with the contexts pushed since still on it, and
  for a component reference at least its own context.
\<close>

theorem stack_restored_only_on_normal_return:
  assumes "RenderDOM n P node w = Some (r, w')"
  shows "case r of
           Inr result \<Rightarrow> id_stack w' = id_stack w
         | Inl e \<Rightarrow> \<exists>ext. id_stack w' = id_stack w @ ext \<and> (is_function node \<longrightarrow> ext \<noteq> [])"
proof (cases r)
  case (Inr result)
  with RenderDOM_balanced[OF assms] show ?thesis by (simp add: balanced_def)
next
  case (Inl e)
  show ?thesis
  proof (cases "is_function node")
    case True
    then obtain f args where "node = JFun f args" by (cases node) auto
    with assms Inl RenderDOM_JFun_throws[of n P f args w e w'] show ?thesis by auto
  next
    case False
    with RenderDOM_balanced[OF assms] Inl show ?thesis by (auto simp: balanced_def extends_def)
  qed
qed

theorem stack_restored_only_on_normal_return_witness:
  "(\<exists>r w'. RenderDOM 2 sample_prog (JFun 0 [JArr [JStr ''p'']]) source_world = Some (Inr r, w') \<and>
      id_stack w' = id_stack source_world) \<and>
   (\<exists>e w' ext. RenderDOM 2 sample_prog (JFun 1 []) source_world = Some (Inl e, w') \<and>
      id_stack w' = id_stack source_world @ ext \<and> ext \<noteq> [])"
proof -
  have "outcome (RenderDOM 2 sample_prog (JFun 0 [JArr [JStr ''p'']]) source_world) =
      Some (Inr (Some (Element ''p'' [(''data-uid'', ''0'')] [] [] [])), 1, [])"
    by code_simp
  then obtain w1 where r1: "RenderDOM 2 sample_prog (JFun 0 [JArr [JStr ''p'']]) source_world =
      Some (Inr (Some (Element ''p'' [(''data-uid'', ''0'')] [] [] [])), w1)"
    using outcomeD by blast
  have "outcome (RenderDOM 2 sample_prog (JFun 1 []) source_world) =
      Some (Inl UserError, 1, [(0, JFun 1 [])])"
    by code_simp
  then obtain w2 where r2: "RenderDOM 2 sample_prog (JFun 1 []) source_world = Some (Inl UserError, w2)"
    using outcomeD by blast
  from stack_restored_only_on_normal_return[OF r1]
    stack_restored_only_on_normal_return[OF r2] r1 r2 show ?thesis by auto
qed

text \<open>
  Claim C1 as stated fails: a component function that throws, and one that returns
  \<open>undefined\<close>, both leave their context on the stack, which was empty before.
\<close>

theorem stack_left_pushed_when_render_throws:
  "outcome (RenderDOM 2 sample_prog (JFun 1 []) source_world) =
     Some (Inl UserError, 1, [(0, JFun 1 [])]) \<and>
   outcome (RenderDOM 2 sample_prog (JFun 0 []) source_world) =
     Some (Inl TypeError, 1, [(0, JFun 0 [])]) \<and>
   id_stack source_world = []"
  by code_simp

text \<open>
  Claim C10.  When the component function returns a falsy node description, the
  rendering of that description yields nothing, \<open>dom.setAttribute\<close> throws a
  \<open>TypeError\<close> on the missing node, and the state left behind is the one the
  component returned in: its context is still on the stack, which is therefore not
  empty.
\<close>

theorem falsy_component_result_throws_and_keeps_context:
  assumes "run_comp (P f args) (enter (JFun f args) w) = (Inr d, w1)" and "falsy d"
  shows "RenderDOM (Suc (Suc n)) P (JFun f args) w = Some (Inl TypeError, w1) \<and>
         id_stack w1 = id_stack w @ [(id_counter w, JFun f args)] \<and> id_stack w1 \<noteq> []"
  using assms run_comp_enter_stack[OF assms(1)] by (simp add: RenderDOM_JFun RenderDOM_falsy)

theorem falsy_component_result_throws_and_keeps_context_witness:
  "falsy JUndefined \<and>
   RenderDOM 2 sample_prog (JFun 0 []) source_world =
     Some (Inl TypeError, enter (JFun 0 []) source_world) \<and>
   id_stack (enter (JFun 0 []) source_world) = [(0, JFun 0 [])]"
  using falsy_component_result_throws_and_keeps_context [of sample_prog 0 "[]" source_world JUndefined "enter (JFun 0 []) source_world" 0]
  by (simp add: sample_prog_def numeral_2_eq_2 source_world_def)





section \<open>The tag specifier\<close>

lemma takeWhile_plain_frags:
  assumes "list_all plain tok" "list_all fragment fs"
  shows "takeWhile plain (tok @ concat (map (\<lambda>f. fst f # snd f) fs)) = tok"
    and "dropWhile plain (tok @ concat (map (\<lambda>f. fst f # snd f) fs)) = concat (map (\<lambda>f. fst f # snd f) fs)"
proof -
  have tok: "\<forall>c\<in>set tok. plain c" using assms(1) by (simp add: list_all_iff)
  show "takeWhile plain (tok @ concat (map (\<lambda>f. fst f # snd f) fs)) = tok"
  proof (cases fs)
    case Nil
    with tok show ?thesis by simp
  next
    case (Cons f fs')
    with assms(2) have "\<not> plain (fst f)" by (auto simp: fragment_def plain_def)
    with tok Cons show ?thesis by (simp add: takeWhile_tail)
  qed
  show "dropWhile plain (tok @ concat (map (\<lambda>f. fst f # snd f) fs)) = concat (map (\<lambda>f. fst f # snd f) fs)"
  proof (cases fs)
    case Nil
    with tok show ?thesis by simp
  next
    case (Cons f fs')
    with assms(2) have "\<not> plain (fst f)" by (auto simp: fragment_def plain_def)
    with tok Cons show ?thesis by (simp add: dropWhile_append2)
  qed
qed

lemma match_all_plain_prefix:
  "list_all plain t \<Longrightarrow> \<not> plain d \<Longrightarrow> match_all d (t @ s) = match_all d s"
  by (induction t) auto

lemma match_all_frags:
  assumes "list_all fragment fs" "\<not> plain d"
  shows "match_all d (concat (map (\<lambda>f. fst f # snd f) fs)) =
         map (\<lambda>tok. d # tok) (tokens d fs)"
  using assms(1)
proof (induction fs)
  case Nil
  then show ?case by (simp add: tokens_def)
next
  case (Cons f fs)
  then have f: "fragment f" and fs: "list_all fragment fs" by simp_all
  from f have tok: "list_all plain (snd f)" "snd f \<noteq> []" by (simp_all add: fragment_def)
  note tw = takeWhile_plain_frags[OF tok(1) fs]
  show ?case
  proof (cases "fst f = d")
    case True
    with tw tok Cons.IH[OF fs] show ?thesis by (simp add: tokens_def)
  next
    case False
    with match_all_plain_prefix[OF tok(1) assms(2)] Cons.IH[OF fs] show ?thesis
      by (simp add: tokens_def)
  qed
qed

lemma match_specifier:
  assumes "t \<noteq> []" "list_all plain t" "list_all fragment fs"
  shows "match_tag (specifier t fs) = Some t"
    and "\<not> plain d \<Longrightarrow> match_all d (specifier t fs) = map (\<lambda>tok. d # tok) (tokens d fs)"
  using assms takeWhile_plain_frags(1)[OF assms(2,3)]
  by (simp_all add: match_tag_def specifier_def match_all_plain_prefix match_all_frags)

lemma set_attrs_Element:
  "\<exists>as' ps'. set_attrs kvs (Element t as ps cs kids) = Element t as' ps' cs kids"
  by (induction kvs arbitrary: as ps) auto

lemma fold_classList_add:
  "\<exists>cs'. fold (\<lambda>s. classList_add (g s)) xs (Element t as ps cs kids) = Element t as ps cs' kids \<and>
         set cs' = set cs \<union> g ` set xs"
proof (induction xs arbitrary: cs)
  case Nil
  then show ?case by simp
next
  case (Cons x xs)
  from Cons.IH[of "if g x \<in> set cs then cs else cs @ [g x]"] show ?case by auto
qed

lemma map_of_put: "map_of (put k v as) k = Some v"
  by (induction as) auto

lemma element_of_specifier:
  assumes "t \<noteq> []" "list_all plain t" "list_all fragment fs"
  shows "\<exists>el. element_of (JStr (specifier t fs) # rest) =
           Inr (el, drop (case rest of JObj kvs # r \<Rightarrow> 1 | _ \<Rightarrow> 0) rest) \<and>
         described t fs el \<and> childNodes el = []"
proof -
  let ?attrs = "(case rest of JObj kvs # r \<Rightarrow> Some kvs | _ \<Rightarrow> None)"
  have np: "\<not> plain (CHR ''.'')" "\<not> plain (CHR ''#'')" by (simp_all add: plain_def)
  note m = match_specifier[OF assms]
  obtain as1 ps1 where e1:
    "(case ?attrs of Some kvs \<Rightarrow> set_attrs kvs (createElement t) | None \<Rightarrow> createElement t) =
       Element t as1 ps1 [] []"
  proof (cases ?attrs)
    case None
    then show ?thesis using that by (simp add: createElement_def)
  next
    case (Some kvs)
    from set_attrs_Element[of kvs t "[]" "[]" "[]" "[]"] obtain as' ps' where
      "set_attrs kvs (Element t [] [] [] []) = Element t as' ps' [] []" by blast
    with Some show ?thesis using that by (simp add: createElement_def)
  qed
  obtain cs2 where e2:
    "fold (\<lambda>s. classList_add (tl s)) (map (\<lambda>tok. CHR ''.'' # tok) (tokens (CHR ''.'') fs))
       (Element t as1 ps1 [] []) = Element t as1 ps1 cs2 []"
    and cs2: "set cs2 = set (tokens (CHR ''.'') fs)"
    using fold_classList_add[of tl "map (\<lambda>tok. CHR ''.'' # tok) (tokens (CHR ''.'') fs)" t as1 ps1 "[]" "[]"]
    by (auto simp: image_comp comp_def)
  define el where "el = (case map (\<lambda>tok. CHR ''#'' # tok) (tokens (CHR ''#'') fs) of
      i # r \<Rightarrow> set_attr ''id'' (tl i) (Element t as1 ps1 cs2 []) | [] \<Rightarrow> Element t as1 ps1 cs2 [])"
  have d: "described t fs el \<and> childNodes el = []"
    unfolding el_def described_def using cs2
    by (cases "tokens (CHR ''#'') fs") (simp_all add: map_of_put)
  have ch: "drop (if ?attrs \<noteq> None then 2 else 1) (JStr (specifier t fs) # rest) =
      drop (case rest of JObj kvs # r \<Rightarrow> 1 | _ \<Rightarrow> 0) rest"
    by (auto split: list.splits jsval.splits)
  have "element_of (JStr (specifier t fs) # rest) =
      Inr (el, drop (case rest of JObj kvs # r \<Rightarrow> 1 | _ \<Rightarrow> 0) rest)"
    unfolding element_of_def using m(1) m(2)[OF np(1)] m(2)[OF np(2)] e1 e2 ch
    by (cases "tokens (CHR ''#'') fs") (simp_all add: Let_def el_def)
  with d show ?thesis by blast
qed


lemma append_children_Element:
  "append_children R cs (Element t as ps cl kids) w = Some (Inr r, w') \<Longrightarrow>
   \<exists>kids'. r = Some (Element t as ps cl kids')"
proof (induction cs arbitrary: kids w)
  case Nil
  then show ?case by auto
next
  case (Cons child cs)
  show ?case
  proof (cases "R child w")
    case None
    with Cons.prems show ?thesis by simp
  next
    case (Some o1)
    obtain r1 w1 where o1: "o1 = (r1, w1)" by (cases o1)
    show ?thesis
    proof (cases r1)
      case (Inl e)
      with Cons.prems Some o1 show ?thesis by simp
    next
      case (Inr x)
      with Cons.prems Some o1 obtain kids1 where
        "append_children R cs (Element t as ps cl kids1) w1 = Some (Inr r, w')"
        by (cases x) auto
      from Cons.IH[OF this] show ?thesis .
    qed
  qed
qed

lemma described_children:
  "described t fs (Element t' as ps cl kids) \<Longrightarrow> described t fs (Element t' as ps cl kids')"
  by (simp add: described_def)

text \<open>
  Claim C7.  For a tag name \<open>t\<close> (non-empty, of plain characters) followed by any
  number of class and id fragments in any order, an element description with that
  specifier renders, whenever it renders, to an element with tag name \<open>t\<close>, whose
  classes are exactly the class tokens and whose \<open>id\<close> is the first id token; with
  no children it always renders.  Nothing depends on the order of the fragments but
  which id token comes first.
\<close>

theorem specifier_renders_tag_id_classes:
  assumes "t \<noteq> []" and "list_all plain t" and "list_all fragment fs"
  shows "(\<forall>r w'. RenderDOM (Suc n) P (JArr (JStr (specifier t fs) # rest)) w = Some (Inr r, w') \<longrightarrow>
            (\<exists>el. r = Some el \<and> described t fs el)) \<and>
         (\<exists>el. RenderDOM (Suc n) P (JArr [JStr (specifier t fs)]) w = Some (Inr (Some el), w) \<and>
            described t fs el)"
proof (intro conjI allI impI)
  fix r w'
  assume run: "RenderDOM (Suc n) P (JArr (JStr (specifier t fs) # rest)) w = Some (Inr r, w')"
  from element_of_specifier[OF assms, of rest] obtain el children where
    el: "element_of (JStr (specifier t fs) # rest) = Inr (el, children)" and d: "described t fs el"
    by blast
  from d obtain as ps cl kids where shape: "el = Element t as ps cl kids"
    by (cases el) (auto simp: described_def)
  from run el have "append_children (RenderDOM n P) children el w = Some (Inr r, w')"
    by (simp add: RenderDOM_JArr)
  from append_children_Element[OF this[unfolded shape]] obtain kids' where
    r: "r = Some (Element t as ps cl kids')" by (elim exE)
  from d have "described t fs (Element t as ps cl kids')"
    unfolding shape by (rule described_children)
  with r show "\<exists>el. r = Some el \<and> described t fs el" by simp
next
  from element_of_specifier[OF assms, of "[]"] obtain el where
    "element_of [JStr (specifier t fs)] = Inr (el, [])" and "described t fs el"
    by auto
  then show "\<exists>el. RenderDOM (Suc n) P (JArr [JStr (specifier t fs)]) w = Some (Inr (Some el), w) \<and>
      described t fs el"
    by (auto simp: RenderDOM_JArr)
qed

theorem specifier_renders_tag_id_classes_witness:
  "(\<exists>el. RenderDOM 1 sample_prog (JArr [JStr ''button#go.primary.large'']) source_world =
       Some (Inr (Some el), source_world) \<and>
       described ''button'' [(CHR ''#'', ''go''), (CHR ''.'', ''primary''), (CHR ''.'', ''large'')] el) \<and>
   (\<exists>el w'. RenderDOM 2 sample_prog
        (JArr [JStr ''button.large#go.primary'', JObj [(''onclick'', JFun 2 [])], JStr ''Go'']) source_world =
       Some (Inr (Some el), w') \<and>
       described ''button'' [(CHR ''.'', ''large''), (CHR ''#'', ''go''), (CHR ''.'', ''primary'')] el)"
proof -
  let ?fs1 = "[(CHR ''#'', ''go''), (CHR ''.'', ''primary''), (CHR ''.'', ''large'')]"
  let ?fs2 = "[(CHR ''.'', ''large''), (CHR ''#'', ''go''), (CHR ''.'', ''primary'')]"
  let ?rest = "[JObj [(''onclick'', JFun 2 [])], JStr ''Go'']"
  have t: "''button'' \<noteq> []" "list_all plain ''button''" by (simp_all add: plain_def)
  have f1: "list_all fragment ?fs1" and f2: "list_all fragment ?fs2"
    by (simp_all add: fragment_def plain_def)
  have s1: "specifier ''button'' ?fs1 = ''button#go.primary.large''"
    and s2: "specifier ''button'' ?fs2 = ''button.large#go.primary''"
    by (simp_all add: specifier_def)
  have "outcome (RenderDOM 2 sample_prog (JArr (JStr ''button.large#go.primary'' # ?rest)) source_world) =
      Some (Inr (Some (Element ''button'' [(''id'', ''go'')] [(''onclick'', JFun 2 [])]
        [''large'', ''primary''] [TextNode ''Go''])), 0, [])"
    by code_simp
  then obtain w' where run: "RenderDOM 2 sample_prog (JArr (JStr ''button.large#go.primary'' # ?rest)) source_world =
      Some (Inr (Some (Element ''button'' [(''id'', ''go'')] [(''onclick'', JFun 2 [])]
        [''large'', ''primary''] [TextNode ''Go''])), w')"
    using outcomeD by blast
  from specifier_renders_tag_id_classes[OF t f1, of 0 sample_prog "[]" source_world]
    specifier_renders_tag_id_classes[OF t f2, of 1 sample_prog ?rest source_world] run
  show ?thesis unfolding s1 s2 by (auto simp: numeral_2_eq_2)
qed

section \<open>Reading a cell\<close>

lemma assign_idem: "assign k v (assign k v es) = assign k v es"
  by (induction es) auto

lemma assign_count:
  "sorted_wrt (<) (map fst es) \<Longrightarrow> length (filter (\<lambda>e. fst e = k) (assign k v es)) = 1"
proof (induction es)
  case Nil
  then show ?case by simp
next
  case (Cons e es)
  obtain k' v' where e: "e = (k', v')" by (cases e)
  from Cons.prems have gt: "\<forall>x\<in>set es. k' < fst x" and srt: "sorted_wrt (<) (map fst es)"
    by (auto simp: e)
  have none: "k \<le> k' \<Longrightarrow> filter (\<lambda>e. fst e = k) es = []"
    using gt by (auto simp: filter_empty_conv)
  show ?case
    using Cons.IH[OF srt] none by (auto simp: e)
qed

lemma get_value_twice: "snd (get_value c (snd (get_value c w))) = snd (get_value c w)"
  by (simp add: get_value_def current_id_def assign_idem)

lemma funpow_idem:
  assumes "\<And>x. f (f x) = f x"
  shows "(f ^^ Suc N) x = f x"
  by (induction N) (simp_all add: assms)

lemma get_value_subscribers:
  "id_stack w \<noteq> [] \<Longrightarrow>
   subscribers (cells (snd (get_value c w)) c) =
     assign (fst (last (id_stack w))) (snd (last (id_stack w))) (subscribers (cells w c))"
  by (simp add: get_value_def current_id_def)

text \<open>
  Claim C8.  While a context \<open>(i, node)\<close> is on top of the stack, reading a cell
  whose subscriber table is well formed (its keys in ascending order, as JavaScript
  enumerates them) any number \<open>N \<ge> 1\<close> of times leaves the state that one read
  leaves: the table is the old one with \<open>node\<close> assigned to the key \<open>i\<close>, and it
  has exactly one entry for \<open>i\<close>.
\<close>

theorem repeated_reads_register_one_entry:
  assumes "id_stack w \<noteq> []" and "last (id_stack w) = (i, node)"
    and "sorted_wrt (<) (map fst (subscribers (cells w c)))" and "0 < N"
  shows "((\<lambda>w. snd (get_value c w)) ^^ N) w = snd (get_value c w) \<and>
         subscribers (cells (((\<lambda>w. snd (get_value c w)) ^^ N) w) c) =
           assign i node (subscribers (cells w c)) \<and>
         map_of (subscribers (cells (((\<lambda>w. snd (get_value c w)) ^^ N) w) c)) i = Some node \<and>
         length (filter (\<lambda>e. fst e = i) (subscribers (cells (((\<lambda>w. snd (get_value c w)) ^^ N) w) c))) = 1"
proof -
  have once: "((\<lambda>w. snd (get_value c w)) ^^ N) w = snd (get_value c w)"
    using assms(4) funpow_idem[of "\<lambda>w. snd (get_value c w)" "N - 1" w]
    by (simp add: get_value_twice)
  have subs: "subscribers (cells (snd (get_value c w)) c) = assign i node (subscribers (cells w c))"
    using get_value_subscribers[OF assms(1), of c] assms(2) by simp
  show ?thesis
    unfolding once subs using assign_count[OF assms(3)] by (simp add: map_of_assign)
qed


theorem repeated_reads_register_one_entry_witness:
  "id_stack (enter (JFun 0 []) source_world) \<noteq> [] \<and>
   subscribers (cells (((\<lambda>w. snd (get_value 0 w)) ^^ 3) (enter (JFun 0 []) source_world)) 0) =
     [(0, JFun 0 [])] \<and>
   length (filter (\<lambda>e. fst e = 0)
     (subscribers (cells (((\<lambda>w. snd (get_value 0 w)) ^^ 3) (enter (JFun 0 []) source_world)) 0))) = 1"
proof -
  let ?w = "enter (JFun 0 []) source_world"
  have h1: "id_stack ?w \<noteq> []" by (simp add: enter_def)
  have h2: "last (id_stack ?w) = (0, JFun 0 [])" by (simp add: enter_def source_world_def)
  have s: "subscribers (cells ?w 0) = []" by (simp add: enter_def source_world_def state_def)
  have h3: "sorted_wrt (<) (map fst (subscribers (cells ?w 0)))" by (simp add: s)
  have h4: "0 < (3::nat)" by simp
  note inst = repeated_reads_register_one_entry [OF h1 h2 h3 h4, unfolded s assign.simps]
  from inst have a: "subscribers (cells (((\<lambda>w. snd (get_value 0 w)) ^^ 3) ?w) 0) = [(0, JFun 0 [])]"
    by (elim conjE)
  from inst have b: "length (filter (\<lambda>e. fst e = 0)
      (subscribers (cells (((\<lambda>w. snd (get_value 0 w)) ^^ 3) ?w) 0))) = 1"
    by (elim conjE)
  from h1 a b show ?thesis by (intro conjI)
qed

section \<open>Writing a cell: the loop over the subscribers\<close>

lemma for_entries_Cons:
  "for_entries n P c ((i, node) # es) w =
     (case querySelector (string_of_nat i) (document w) of
        Some el \<Rightarrow>
          (case call P node [] (w\<lparr>console := console w @ [LogEntry i node]\<rparr>) of
             (Inl e, w1) \<Rightarrow> Some (Inl e, w1)
           | (Inr d, w1) \<Rightarrow>
               (case RenderDOM n P d w1 of
                  None \<Rightarrow> None
                | Some (Inl e, w2) \<Rightarrow> Some (Inl e, w2)
                | Some (Inr dom', w2) \<Rightarrow>
                    (case setAttribute dom' ''data-uid'' (string_of_nat i) of
                       Inl e \<Rightarrow> Some (Inl e, w2)
                     | Inr new \<Rightarrow>
                         for_entries n P c es
                           (w2\<lparr>document := replaceWith (string_of_nat i) new (document w2)\<rparr>))))
      | None \<Rightarrow>
          for_entries n P c es
            (w\<lparr>console := console w @ [LogEntry i node, LogFreeing i],
               cells := (cells w)(c := (cells w c)
                 \<lparr>subscribers := delete_key i (subscribers (cells w c))\<rparr>)\<rparr>))"
  by (cases "querySelector (string_of_nat i) (document w)") (simp_all add: for_entries.simps(2))

lemma setAttribute_stamps:
  assumes "setAttribute r ''data-uid'' u = Inr new"
  shows "has_uid u new"
proof (cases r)
  case None
  with assms show ?thesis by simp
next
  case (Some el)
  with assms show ?thesis by (cases el) (auto simp: map_of_put)
qed


lemma for_entries_sweep:
  "for_entries n P c es w = Some (r, w') \<Longrightarrow>
   \<exists>R. sweep (\<not> isl r) es (document w) R (document w') \<and> R \<subseteq> fst ` set es \<and>
       (\<forall>k i. present w k i \<and> \<not> present w' k i \<longrightarrow> k = c \<and> i \<in> R) \<and>
       (id_stack w = [] \<longrightarrow>
          id_counter w \<le> id_counter w' \<and>
          (\<forall>k i. i < id_counter w \<longrightarrow>
             map_of (subscribers (cells w' k)) i =
               (if k = c \<and> i \<in> R then None else map_of (subscribers (cells w k)) i)) \<and>
          (\<forall>k i. present w' k i \<longrightarrow> present w k i \<or> id_counter w \<le> i))"
proof (induction es arbitrary: w)
  case Nil
  then have "r = Inr ()" "w' = w" by simp_all
  then show ?case by (auto intro: sweep.finished)
next
  case (Cons e es)
  obtain i node where e: "e = (i, node)" by (cases e)
  note prem = Cons.prems[unfolded e for_entries_Cons]
  show ?case
  proof (cases "querySelector (string_of_nat i) (document w)")
    case None
    define w1 where "w1 = w\<lparr>console := console w @ [LogEntry i node, LogFreeing i],
               cells := (cells w)(c := (cells w c)
                 \<lparr>subscribers := delete_key i (subscribers (cells w c))\<rparr>)\<rparr>"
    from prem None have run: "for_entries n P c es w1 = Some (r, w')" by (simp add: w1_def)
    from Cons.IH[OF run] obtain R where
      sw: "sweep (\<not> isl r) es (document w1) R (document w')" and sub: "R \<subseteq> fst ` set es"
      and gone: "\<forall>k j. present w1 k j \<and> \<not> present w' k j \<longrightarrow> k = c \<and> j \<in> R"
      and emp: "id_stack w1 = [] \<longrightarrow>
          id_counter w1 \<le> id_counter w' \<and>
          (\<forall>k j. j < id_counter w1 \<longrightarrow>
             map_of (subscribers (cells w' k)) j =
               (if k = c \<and> j \<in> R then None else map_of (subscribers (cells w1 k)) j)) \<and>
          (\<forall>k j. present w' k j \<longrightarrow> present w1 k j \<or> id_counter w1 \<le> j)"
      by blast
    have fr: "document w1 = document w" "id_stack w1 = id_stack w" "id_counter w1 = id_counter w"
      by (simp_all add: w1_def)
    have m1: "\<And>k j. map_of (subscribers (cells w1 k)) j =
        (if k = c \<and> j = i then None else map_of (subscribers (cells w k)) j)"
      by (simp add: w1_def map_of_delete_key)
    have p1: "\<And>k j. present w1 k j = (present w k j \<and> \<not> (k = c \<and> j = i))"
      by (auto simp: present_def m1)
    have 1: "sweep (\<not> isl r) (e # es) (document w) (insert i R) (document w')"
      unfolding e using None sw[unfolded fr] by (rule sweep.stale)
    have 2: "insert i R \<subseteq> fst ` set (e # es)" using sub by (auto simp: e)
    have 3: "\<forall>k j. present w k j \<and> \<not> present w' k j \<longrightarrow> k = c \<and> j \<in> insert i R"
      using gone p1 by blast
    have 4: "id_stack w = [] \<longrightarrow>
          id_counter w \<le> id_counter w' \<and>
          (\<forall>k j. j < id_counter w \<longrightarrow>
             map_of (subscribers (cells w' k)) j =
               (if k = c \<and> j \<in> insert i R then None else map_of (subscribers (cells w k)) j)) \<and>
          (\<forall>k j. present w' k j \<longrightarrow> present w k j \<or> id_counter w \<le> j)"
    proof
      assume "id_stack w = []"
      with emp fr have a: "id_counter w \<le> id_counter w'"
        and b: "\<forall>k j. j < id_counter w \<longrightarrow>
             map_of (subscribers (cells w' k)) j =
               (if k = c \<and> j \<in> R then None else map_of (subscribers (cells w1 k)) j)"
        and d: "\<forall>k j. present w' k j \<longrightarrow> present w1 k j \<or> id_counter w \<le> j"
        by simp_all
      have b': "\<forall>k j. j < id_counter w \<longrightarrow>
             map_of (subscribers (cells w' k)) j =
               (if k = c \<and> j \<in> insert i R then None else map_of (subscribers (cells w k)) j)"
        using b by (simp add: m1)
      have d': "\<forall>k j. present w' k j \<longrightarrow> present w k j \<or> id_counter w \<le> j"
        using d p1 by blast
      from a b' d' show "id_counter w \<le> id_counter w' \<and>
          (\<forall>k j. j < id_counter w \<longrightarrow>
             map_of (subscribers (cells w' k)) j =
               (if k = c \<and> j \<in> insert i R then None else map_of (subscribers (cells w k)) j)) \<and>
          (\<forall>k j. present w' k j \<longrightarrow> present w k j \<or> id_counter w \<le> j)"
        by (intro conjI)
    qed
    from 1 2 3 4 show ?thesis by (intro exI[of _ "insert i R"] conjI)
  next
    case (Some el)
    define w0 where "w0 = w\<lparr>console := console w @ [LogEntry i node]\<rparr>"
    obtain r1 w1 where c1: "call P node [] w0 = (r1, w1)" by (cases "call P node [] w0")
    have w1: "w1 = snd (call P node [] w0)" using c1 by simp
    have fr1: "document w1 = document w" "id_stack w1 = id_stack w" "id_counter w1 = id_counter w"
      using call_frame[of P node "[]" w0] by (simp_all add: w1 w0_def)
    have keep1: "\<And>k j. present w k j \<Longrightarrow> present w1 k j"
      using call_keeps[of w0 _ _ P node "[]"] by (simp add: w1 w0_def present_def)
    have emp1: "id_stack w = [] \<Longrightarrow> cells w1 = cells w"
      using call_empty[of w0 P node "[]"] by (simp add: w1 w0_def)
    note prem1 = prem[unfolded Some option.case w0_def[symmetric] c1 prod.case]
    have ab: "sweep False (e # es) (document w) {} (document w)"
      unfolding e using Some by (rule sweep.aborted)
    have aborted: "\<exists>R. sweep (\<not> isl r) (e # es) (document w) R (document w') \<and>
        R \<subseteq> fst ` set (e # es) \<and>
        (\<forall>k j. present w k j \<and> \<not> present w' k j \<longrightarrow> k = c \<and> j \<in> R) \<and>
        (id_stack w = [] \<longrightarrow>
          id_counter w \<le> id_counter w' \<and>
          (\<forall>k j. j < id_counter w \<longrightarrow>
             map_of (subscribers (cells w' k)) j =
               (if k = c \<and> j \<in> R then None else map_of (subscribers (cells w k)) j)) \<and>
          (\<forall>k j. present w' k j \<longrightarrow> present w k j \<or> id_counter w \<le> j))"
      if thrown: "isl r" and ext: "extends w1 w'" for w'
    proof -
      have d: "document w' = document w" using ext fr1 by (simp add: extends_def)
      have k: "\<forall>k j. present w k j \<and> \<not> present w' k j \<longrightarrow> k = c \<and> j \<in> {}"
        using keep1 ext by (auto simp: extends_def)
      have em: "id_stack w = [] \<longrightarrow>
          id_counter w \<le> id_counter w' \<and>
          (\<forall>k j. j < id_counter w \<longrightarrow>
             map_of (subscribers (cells w' k)) j =
               (if k = c \<and> j \<in> {} then None else map_of (subscribers (cells w k)) j)) \<and>
          (\<forall>k j. present w' k j \<longrightarrow> present w k j \<or> id_counter w \<le> j)"
      proof
        assume s: "id_stack w = []"
        note cs = emp1[OF s]
        have p: "\<And>k j. present w1 k j = present w k j" by (simp add: present_def cs)
        from ext fr1 have "id_counter w \<le> id_counter w'" by (simp add: extends_def)
        moreover from ext fr1 cs have "\<forall>k j. j < id_counter w \<longrightarrow>
             map_of (subscribers (cells w' k)) j =
               (if k = c \<and> j \<in> {} then None else map_of (subscribers (cells w k)) j)"
          by (simp add: extends_def)
        moreover have "\<forall>k j. present w' k j \<longrightarrow> present w k j \<or> id_counter w \<le> j"
        proof (intro allI impI)
          fix k j assume "present w' k j"
          with ext have "present w1 k j \<or> (id_counter w1 \<le> j \<and> j < id_counter w')"
            by (simp add: extends_def)
          then show "present w k j \<or> id_counter w \<le> j" using p fr1 by auto
        qed
        ultimately show "id_counter w \<le> id_counter w' \<and>
          (\<forall>k j. j < id_counter w \<longrightarrow>
             map_of (subscribers (cells w' k)) j =
               (if k = c \<and> j \<in> {} then None else map_of (subscribers (cells w k)) j)) \<and>
          (\<forall>k j. present w' k j \<longrightarrow> present w k j \<or> id_counter w \<le> j)"
          by (intro conjI)
      qed
      have s: "sweep (\<not> isl r) (e # es) (document w) {} (document w')"
        using ab thrown d by simp
      have "{} \<subseteq> fst ` set (e # es)" by simp
      with s k em show ?thesis by (intro exI[of _ "{}"] conjI)
    qed
    show ?thesis
    proof (cases r1)
      case (Inl e1)
      with prem1 have "r = Inl e1" "w' = w1" by simp_all
      with aborted[of w1] show ?thesis by (simp add: extends_refl)
    next
      case (Inr d)
      with prem1 obtain r2 w2 where r2: "RenderDOM n P d w1 = Some (r2, w2)"
        by (cases "RenderDOM n P d w1") auto
      from RenderDOM_balanced[OF r2] have e12: "extends w1 w2"
        and bal: "\<not> isl r2 \<longrightarrow> id_stack w2 = id_stack w1"
        by (simp_all add: balanced_def)
      note prem2 = prem1[unfolded Inr sum.case r2 option.case prod.case]
      show ?thesis
      proof (cases r2)
        case (Inl e2)
        with prem2 have "r = Inl e2" "w' = w2" by simp_all
        with aborted[of w2] e12 show ?thesis by simp
      next
        case r2r: (Inr dom')
        note prem3 = prem2[unfolded r2r sum.case]
        show ?thesis
        proof (cases "setAttribute dom' ''data-uid'' (string_of_nat i)")
          case (Inl e3)
          with prem3 have "r = Inl e3" "w' = w2" by simp_all
          with aborted[of w2] e12 show ?thesis by simp
        next
          case sr: (Inr new)
          define w3 where "w3 = w2\<lparr>document := replaceWith (string_of_nat i) new (document w2)\<rparr>"
          from prem3 sr have run: "for_entries n P c es w3 = Some (r, w')" by (simp add: w3_def)
          from Cons.IH[OF run] obtain R where
            sw: "sweep (\<not> isl r) es (document w3) R (document w')" and sub: "R \<subseteq> fst ` set es"
            and gone: "\<forall>k j. present w3 k j \<and> \<not> present w' k j \<longrightarrow> k = c \<and> j \<in> R"
            and emp: "id_stack w3 = [] \<longrightarrow>
                id_counter w3 \<le> id_counter w' \<and>
                (\<forall>k j. j < id_counter w3 \<longrightarrow>
                   map_of (subscribers (cells w' k)) j =
                     (if k = c \<and> j \<in> R then None else map_of (subscribers (cells w3 k)) j)) \<and>
                (\<forall>k j. present w' k j \<longrightarrow> present w3 k j \<or> id_counter w3 \<le> j)"
            by blast
          have d2: "document w2 = document w" using e12 fr1 by (simp add: extends_def)
          have d3: "document w3 = replaceWith (string_of_nat i) new (document w)"
            by (simp add: w3_def d2)
          have st3: "id_stack w3 = id_stack w" using bal r2r fr1 by (simp add: w3_def)
          have c3: "id_counter w \<le> id_counter w3" using e12 fr1 by (simp add: w3_def extends_def)
          have p3: "\<And>k j. present w3 k j = present w2 k j" by (simp add: present_def w3_def)
          have keep3: "\<And>k j. present w k j \<Longrightarrow> present w3 k j"
            using keep1 e12 by (simp add: p3 extends_def)
          have 1: "sweep (\<not> isl r) (e # es) (document w) R (document w')"
            unfolding e using Some setAttribute_stamps[OF sr] sw[unfolded d3] by (rule sweep.live)
          have 2: "R \<subseteq> fst ` set (e # es)" using sub by auto
          have 3: "\<forall>k j. present w k j \<and> \<not> present w' k j \<longrightarrow> k = c \<and> j \<in> R"
            using gone keep3 by blast
          have 4: "id_stack w = [] \<longrightarrow>
              id_counter w \<le> id_counter w' \<and>
              (\<forall>k j. j < id_counter w \<longrightarrow>
                 map_of (subscribers (cells w' k)) j =
                   (if k = c \<and> j \<in> R then None else map_of (subscribers (cells w k)) j)) \<and>
              (\<forall>k j. present w' k j \<longrightarrow> present w k j \<or> id_counter w \<le> j)"
          proof
            assume s: "id_stack w = []"
            note cs = emp1[OF s]
            have pw: "\<And>k j. present w1 k j = present w k j" by (simp add: present_def cs)
            from emp st3 s have a: "id_counter w3 \<le> id_counter w'"
              and b: "\<forall>k j. j < id_counter w3 \<longrightarrow>
                   map_of (subscribers (cells w' k)) j =
                     (if k = c \<and> j \<in> R then None else map_of (subscribers (cells w3 k)) j)"
              and f: "\<forall>k j. present w' k j \<longrightarrow> present w3 k j \<or> id_counter w3 \<le> j"
              by simp_all
            have old: "\<And>k j. j < id_counter w \<Longrightarrow>
                map_of (subscribers (cells w3 k)) j = map_of (subscribers (cells w k)) j"
              using e12 fr1 cs by (simp add: w3_def extends_def)
            have b': "\<forall>k j. j < id_counter w \<longrightarrow>
                 map_of (subscribers (cells w' k)) j =
                   (if k = c \<and> j \<in> R then None else map_of (subscribers (cells w k)) j)"
              using b c3 old by simp
            have f': "\<forall>k j. present w' k j \<longrightarrow> present w k j \<or> id_counter w \<le> j"
            proof (intro allI impI)
              fix k j assume "present w' k j"
              with f have "present w3 k j \<or> id_counter w3 \<le> j" by simp
              moreover have "present w3 k j \<Longrightarrow> present w k j \<or> id_counter w \<le> j"
                using e12 fr1 pw by (auto simp: p3 extends_def)
              ultimately show "present w k j \<or> id_counter w \<le> j" using c3 by auto
            qed
            from a c3 have "id_counter w \<le> id_counter w'" by simp
            with b' f' show "id_counter w \<le> id_counter w' \<and>
              (\<forall>k j. j < id_counter w \<longrightarrow>
                 map_of (subscribers (cells w' k)) j =
                   (if k = c \<and> j \<in> R then None else map_of (subscribers (cells w k)) j)) \<and>
              (\<forall>k j. present w' k j \<longrightarrow> present w k j \<or> id_counter w \<le> j)"
              by (intro conjI)
          qed
          from 1 2 3 4 show ?thesis by (intro exI[of _ R] conjI)
        qed
      qed
    qed
  qed
qed

lemma set_cell_sweep:
  assumes "set_cell n P c x w = Some (r, w')"
  shows "\<exists>R. sweep (\<not> isl r) (subscribers (cells w c)) (document w) R (document w') \<and>
       R \<subseteq> fst ` set (subscribers (cells w c)) \<and>
       (\<forall>k i. present w k i \<and> \<not> present w' k i \<longrightarrow> k = c \<and> i \<in> R) \<and>
       (id_stack w = [] \<longrightarrow>
          id_counter w \<le> id_counter w' \<and>
          (\<forall>k i. i < id_counter w \<longrightarrow>
             map_of (subscribers (cells w' k)) i =
               (if k = c \<and> i \<in> R then None else map_of (subscribers (cells w k)) i)) \<and>
          (\<forall>k i. present w' k i \<longrightarrow> present w k i \<or> id_counter w \<le> i))"
proof -
  define wv where "wv = w\<lparr>cells := (cells w)(c := (cells w c)\<lparr>cell_value := x\<rparr>)\<rparr>"
  have s: "\<And>k. subscribers (cells wv k) = subscribers (cells w k)" by (simp add: wv_def)
  have fr: "document wv = document w" "id_stack wv = id_stack w" "id_counter wv = id_counter w"
    by (simp_all add: wv_def)
  have p: "\<And>k i. present wv k i = present w k i" by (simp add: present_def s)
  from assms have "for_entries n P c (subscribers (cells w c)) wv = Some (r, w')"
    by (simp add: set_cell_def wv_def)
  from for_entries_sweep[OF this] show ?thesis by (simp only: s fr p)
qed

section \<open>Writing a cell: the pass entry by entry\<close>

lemma get_value_result:
  "id_stack w = [] \<Longrightarrow> get_value c w = (cell_value (cells w c), w)"
  by (simp add: get_value_def current_id_def)

lemma run_comp_result: "id_stack w = [] \<Longrightarrow> run_comp b w = (result_of b w, w)"
  by (induction b arbitrary: w) (simp_all add: get_value_result)

lemma call_returns: "id_stack w = [] \<Longrightarrow> call P v args w = (returns P v args w, w)"
  by (cases v) (simp_all add: run_comp_result)

lemma rerender_unregistered:
  "id_stack w = [] \<Longrightarrow> rerender n P i node w = rerender_unregistered n P i node w"
  by (simp add: rerender_def rerender_unregistered_def call_returns)

lemma for_entries_rerender:
  "for_entries n P c ((i, node) # es) w =
     (case querySelector (string_of_nat i) (document w) of
        Some el \<Rightarrow>
          (case rerender n P i node (w\<lparr>console := console w @ [LogEntry i node]\<rparr>) of
             None \<Rightarrow> None
           | Some (Inl e, w2) \<Rightarrow> Some (Inl e, w2)
           | Some (Inr new, w2) \<Rightarrow>
               for_entries n P c es
                 (w2\<lparr>document := replaceWith (string_of_nat i) new (document w2)\<rparr>))
      | None \<Rightarrow>
          for_entries n P c es
            (w\<lparr>console := console w @ [LogEntry i node, LogFreeing i],
               cells := (cells w)(c := (cells w c)
                 \<lparr>subscribers := delete_key i (subscribers (cells w c))\<rparr>)\<rparr>))"
proof (cases "querySelector (string_of_nat i) (document w)")
  case None
  then show ?thesis by (simp add: for_entries_Cons)
next
  case (Some el)
  let ?v = "w\<lparr>console := console w @ [LogEntry i node]\<rparr>"
  obtain r1 w1 where c: "call P node [] ?v = (r1, w1)" by (cases "call P node [] ?v")
  show ?thesis
  proof (cases r1)
    case (Inl e)
    with Some c show ?thesis by (simp add: for_entries_Cons rerender_def)
  next
    case (Inr d)
    show ?thesis
    proof (cases "RenderDOM n P d w1")
      case None
      with Some c Inr show ?thesis by (simp add: for_entries_Cons rerender_def)
    next
      case s2: (Some o2)
      obtain r2 w2 where o2: "o2 = (r2, w2)" by (cases o2)
      show ?thesis
      proof (cases r2)
        case (Inl e)
        with Some c Inr s2 o2 show ?thesis by (simp add: for_entries_Cons rerender_def)
      next
        case r: (Inr dom')
        with Some c Inr s2 o2 show ?thesis
          by (cases "setAttribute dom' ''data-uid'' (string_of_nat i)")
             (simp_all add: for_entries_Cons rerender_def)
      qed
    qed
  qed
qed

lemma rerender_frame:
  assumes "rerender n P i node v = Some (r, w2)"
  shows "document w2 = document v"
    and "id_counter v \<le> id_counter w2"
    and "\<not> isl r \<Longrightarrow> id_stack w2 = id_stack v"
    and "j < id_counter v \<Longrightarrow> id_stack v \<noteq> [] \<longrightarrow> j \<noteq> fst (last (id_stack v)) \<Longrightarrow>
         map_of (subscribers (cells w2 k)) j = map_of (subscribers (cells v k)) j"
    and "id_stack v = [] \<Longrightarrow> present w2 k j \<Longrightarrow> present v k j \<or> id_counter v \<le> j"
proof -
  obtain r1 w1 where c: "call P node [] v = (r1, w1)" by (cases "call P node [] v")
  have w1: "w1 = snd (call P node [] v)" using c by simp
  have fr1: "document w1 = document v" "id_stack w1 = id_stack v" "id_counter w1 = id_counter v"
    using call_frame[of P node "[]" v] by (simp_all add: w1)
  have s1: "\<And>k j. id_stack v \<noteq> [] \<longrightarrow> j \<noteq> fst (last (id_stack v)) \<Longrightarrow>
      map_of (subscribers (cells w1 k)) j = map_of (subscribers (cells v k)) j"
  proof -
    fix k j assume a: "id_stack v \<noteq> [] \<longrightarrow> j \<noteq> fst (last (id_stack v))"
    show "map_of (subscribers (cells w1 k)) j = map_of (subscribers (cells v k)) j"
    proof (cases "id_stack v = []")
      case True
      then show ?thesis using call_empty[of v P node "[]"] by (simp add: w1)
    next
      case False
      with a show ?thesis unfolding w1 by (intro call_subs) simp_all
    qed
  qed
  have e1: "id_stack v = [] \<Longrightarrow> w1 = v" using call_empty[of v P node "[]"] by (simp add: w1)
  have ext: "extends w1 w2 \<and> (\<not> isl r \<longrightarrow> id_stack w2 = id_stack w1)"
  proof (cases r1)
    case (Inl e)
    with assms c have "w2 = w1" by (simp add: rerender_def)
    then show ?thesis by (simp add: extends_refl)
  next
    case (Inr d)
    with assms c obtain r2 w2' where r2: "RenderDOM n P d w1 = Some (r2, w2')"
      by (cases "RenderDOM n P d w1") (auto simp: rerender_def)
    note bal = RenderDOM_balanced[OF r2]
    have eq: "w2 = w2' \<and> (\<not> isl r \<longrightarrow> \<not> isl r2)"
    proof (cases r2)
      case (Inl e)
      with assms c Inr r2 show ?thesis by (auto simp: rerender_def)
    next
      case r: (Inr dom')
      with assms c Inr r2 show ?thesis
        by (cases "setAttribute dom' ''data-uid'' (string_of_nat i)")
           (auto simp: rerender_def)
    qed
    with bal show ?thesis by (simp add: balanced_def)
  qed
  then have e: "extends w1 w2" and st: "\<not> isl r \<longrightarrow> id_stack w2 = id_stack w1" by simp_all
  show "document w2 = document v" using e fr1 by (simp add: extends_def)
  show "id_counter v \<le> id_counter w2" using e fr1 by (simp add: extends_def)
  show "\<not> isl r \<Longrightarrow> id_stack w2 = id_stack v" using st fr1 by simp
  show "j < id_counter v \<Longrightarrow> id_stack v \<noteq> [] \<longrightarrow> j \<noteq> fst (last (id_stack v)) \<Longrightarrow>
         map_of (subscribers (cells w2 k)) j = map_of (subscribers (cells v k)) j"
    using e fr1 s1[of j k] by (simp add: extends_def)
  show "id_stack v = [] \<Longrightarrow> present w2 k j \<Longrightarrow> present v k j \<or> id_counter v \<le> j"
  proof -
    assume em: "id_stack v = []" and p: "present w2 k j"
    from em have "w1 = v" by (rule e1)
    with e p show ?thesis by (auto simp: extends_def)
  qed
qed


lemma for_entries_notified:
  "for_entries n P c es w = Some (r, w') \<Longrightarrow>
   \<exists>R. notified (rerender n P) c (\<not> isl r) es w R w' \<and> R \<subseteq> fst ` set es \<and>
       (\<forall>k j. j < id_counter w \<longrightarrow> (id_stack w \<noteq> [] \<longrightarrow> j \<noteq> fst (last (id_stack w))) \<longrightarrow>
          map_of (subscribers (cells w' k)) j =
            (if k = c \<and> j \<in> R then None else map_of (subscribers (cells w k)) j)) \<and>
       (id_stack w = [] \<longrightarrow>
          notified (rerender_unregistered n P) c (\<not> isl r) es w R w' \<and>
          (\<forall>k j. present w' k j \<longrightarrow> present w k j \<or> id_counter w \<le> j))"
proof (induction es arbitrary: w)
  case Nil
  then have "r = Inr ()" "w' = w" by simp_all
  then show ?case by (auto intro: notified.finished)
next
  case (Cons e es)
  obtain i node where e: "e = (i, node)" by (cases e)
  note prem = Cons.prems[unfolded e for_entries_rerender]
  show ?case
  proof (cases "querySelector (string_of_nat i) (document w)")
    case None
    define w1 where "w1 = w\<lparr>console := console w @ [LogEntry i node, LogFreeing i],
               cells := (cells w)(c := (cells w c)
                 \<lparr>subscribers := delete_key i (subscribers (cells w c))\<rparr>)\<rparr>"
    from prem None have run: "for_entries n P c es w1 = Some (r, w')" by (simp add: w1_def)
    from Cons.IH[OF run] obtain R where
      nt: "notified (rerender n P) c (\<not> isl r) es w1 R w'" and sub: "R \<subseteq> fst ` set es"
      and old: "\<forall>k j. j < id_counter w1 \<longrightarrow> (id_stack w1 \<noteq> [] \<longrightarrow> j \<noteq> fst (last (id_stack w1))) \<longrightarrow>
          map_of (subscribers (cells w' k)) j =
            (if k = c \<and> j \<in> R then None else map_of (subscribers (cells w1 k)) j)"
      and emp: "id_stack w1 = [] \<longrightarrow>
          notified (rerender_unregistered n P) c (\<not> isl r) es w1 R w' \<and>
          (\<forall>k j. present w' k j \<longrightarrow> present w1 k j \<or> id_counter w1 \<le> j)"
      by blast
    have fr: "id_stack w1 = id_stack w" "id_counter w1 = id_counter w"
      by (simp_all add: w1_def)
    have m1: "\<And>k j. map_of (subscribers (cells w1 k)) j =
        (if k = c \<and> j = i then None else map_of (subscribers (cells w k)) j)"
      by (simp add: w1_def map_of_delete_key)
    have p1: "\<And>k j. present w1 k j \<Longrightarrow> present w k j"
      by (auto simp: present_def m1 split: if_splits)
    have 1: "notified (rerender n P) c (\<not> isl r) (e # es) w (insert i R) w'"
      unfolding e using None nt[unfolded w1_def] by (rule notified.stale)
    have 2: "insert i R \<subseteq> fst ` set (e # es)" using sub by (auto simp: e)
    have 3: "\<forall>k j. j < id_counter w \<longrightarrow> (id_stack w \<noteq> [] \<longrightarrow> j \<noteq> fst (last (id_stack w))) \<longrightarrow>
          map_of (subscribers (cells w' k)) j =
            (if k = c \<and> j \<in> insert i R then None else map_of (subscribers (cells w k)) j)"
      using old[unfolded fr] by (simp add: m1)
    have 4: "id_stack w = [] \<longrightarrow>
          notified (rerender_unregistered n P) c (\<not> isl r) (e # es) w (insert i R) w' \<and>
          (\<forall>k j. present w' k j \<longrightarrow> present w k j \<or> id_counter w \<le> j)"
    proof
      assume s: "id_stack w = []"
      with emp fr have a: "notified (rerender_unregistered n P) c (\<not> isl r) es w1 R w'"
        and b: "\<forall>k j. present w' k j \<longrightarrow> present w1 k j \<or> id_counter w \<le> j"
        by simp_all
      have a': "notified (rerender_unregistered n P) c (\<not> isl r) (e # es) w (insert i R) w'"
        unfolding e using None a[unfolded w1_def] by (rule notified.stale)
      have b': "\<forall>k j. present w' k j \<longrightarrow> present w k j \<or> id_counter w \<le> j"
        using b p1 by blast
      from a' b' show "notified (rerender_unregistered n P) c (\<not> isl r) (e # es) w (insert i R) w' \<and>
          (\<forall>k j. present w' k j \<longrightarrow> present w k j \<or> id_counter w \<le> j)"
        by (intro conjI)
    qed
    from 1 2 3 4 show ?thesis by (intro exI[of _ "insert i R"] conjI)
  next
    case (Some el)
    define v where "v = w\<lparr>console := console w @ [LogEntry i node]\<rparr>"
    have frv: "id_stack v = id_stack w" "id_counter v = id_counter w" "cells v = cells w"
      by (simp_all add: v_def)
    have pv: "\<And>k j. present v k j = present w k j" by (simp add: present_def frv)
    note prem1 = prem[unfolded Some option.case v_def[symmetric]]
    from prem1 obtain r2 w2 where rr: "rerender n P i node v = Some (r2, w2)"
      by (cases "rerender n P i node v") auto
    note f = rerender_frame[OF rr]
    have old2: "\<And>k j. j < id_counter w \<Longrightarrow> id_stack w \<noteq> [] \<longrightarrow> j \<noteq> fst (last (id_stack w)) \<Longrightarrow>
        map_of (subscribers (cells w2 k)) j = map_of (subscribers (cells w k)) j"
      using f(4) by (simp add: frv)
    have new2: "\<And>k j. id_stack w = [] \<Longrightarrow> present w2 k j \<Longrightarrow> present w k j \<or> id_counter w \<le> j"
      using f(5) by (simp add: frv pv)
    have un: "id_stack w = [] \<Longrightarrow> rerender_unregistered n P i node v = Some (r2, w2)"
      using rerender_unregistered[of v n P i node] rr by (simp add: frv)
    show ?thesis
    proof (cases r2)
      case (Inl e2)
      with prem1 rr have out: "r = Inl e2" "w' = w2" by simp_all
      have 1: "notified (rerender n P) c (\<not> isl r) (e # es) w {} w'"
        unfolding e using Some rr[unfolded v_def Inl] out(2) notified.aborted[of i w el "rerender n P" node e2 w2 c es]
        by (simp add: out)
      have 3: "\<forall>k j. j < id_counter w \<longrightarrow> (id_stack w \<noteq> [] \<longrightarrow> j \<noteq> fst (last (id_stack w))) \<longrightarrow>
          map_of (subscribers (cells w' k)) j =
            (if k = c \<and> j \<in> {} then None else map_of (subscribers (cells w k)) j)"
        using old2 by (simp add: out)
      have 4: "id_stack w = [] \<longrightarrow>
          notified (rerender_unregistered n P) c (\<not> isl r) (e # es) w {} w' \<and>
          (\<forall>k j. present w' k j \<longrightarrow> present w k j \<or> id_counter w \<le> j)"
      proof
        assume s: "id_stack w = []"
        have a: "notified (rerender_unregistered n P) c (\<not> isl r) (e # es) w {} w'"
          unfolding e using Some un[OF s, unfolded v_def Inl]
            notified.aborted[of i w el "rerender_unregistered n P" node e2 w2 c es]
          by (simp add: out)
        have b: "\<forall>k j. present w' k j \<longrightarrow> present w k j \<or> id_counter w \<le> j"
          using new2[OF s] by (simp add: out)
        from a b show "notified (rerender_unregistered n P) c (\<not> isl r) (e # es) w {} w' \<and>
          (\<forall>k j. present w' k j \<longrightarrow> present w k j \<or> id_counter w \<le> j)"
          by (intro conjI)
      qed
      have "{} \<subseteq> fst ` set (e # es)" by simp
      with 1 3 4 show ?thesis by (intro exI[of _ "{}"] conjI)
    next
      case (Inr new)
      define w3 where "w3 = w2\<lparr>document := replaceWith (string_of_nat i) new (document w2)\<rparr>"
      from prem1 rr Inr have run: "for_entries n P c es w3 = Some (r, w')" by (simp add: w3_def)
      from Cons.IH[OF run] obtain R where
        nt: "notified (rerender n P) c (\<not> isl r) es w3 R w'" and sub: "R \<subseteq> fst ` set es"
        and old: "\<forall>k j. j < id_counter w3 \<longrightarrow> (id_stack w3 \<noteq> [] \<longrightarrow> j \<noteq> fst (last (id_stack w3))) \<longrightarrow>
            map_of (subscribers (cells w' k)) j =
              (if k = c \<and> j \<in> R then None else map_of (subscribers (cells w3 k)) j)"
        and emp: "id_stack w3 = [] \<longrightarrow>
            notified (rerender_unregistered n P) c (\<not> isl r) es w3 R w' \<and>
            (\<forall>k j. present w' k j \<longrightarrow> present w3 k j \<or> id_counter w3 \<le> j)"
        by blast
      have st3: "id_stack w3 = id_stack w" using f(3) Inr by (simp add: w3_def frv)
      have c3: "id_counter w \<le> id_counter w3" using f(2) by (simp add: w3_def frv)
      have s3: "\<And>k. subscribers (cells w3 k) = subscribers (cells w2 k)" by (simp add: w3_def)
      have p3: "\<And>k j. present w3 k j = present w2 k j" by (simp add: present_def s3)
      have 1: "notified (rerender n P) c (\<not> isl r) (e # es) w R w'"
        unfolding e using Some rr[unfolded v_def Inr] nt[unfolded w3_def] by (rule notified.live)
      have 2: "R \<subseteq> fst ` set (e # es)" using sub by auto
      have 3: "\<forall>k j. j < id_counter w \<longrightarrow> (id_stack w \<noteq> [] \<longrightarrow> j \<noteq> fst (last (id_stack w))) \<longrightarrow>
          map_of (subscribers (cells w' k)) j =
            (if k = c \<and> j \<in> R then None else map_of (subscribers (cells w k)) j)"
      proof (intro allI impI)
        fix k j
        assume j: "j < id_counter w" and t: "id_stack w \<noteq> [] \<longrightarrow> j \<noteq> fst (last (id_stack w))"
        from j c3 have "j < id_counter w3" by simp
        with old t st3 have "map_of (subscribers (cells w' k)) j =
              (if k = c \<and> j \<in> R then None else map_of (subscribers (cells w3 k)) j)"
          by simp
        with old2[OF j t] show "map_of (subscribers (cells w' k)) j =
            (if k = c \<and> j \<in> R then None else map_of (subscribers (cells w k)) j)"
          by (simp add: s3)
      qed
      have 4: "id_stack w = [] \<longrightarrow>
          notified (rerender_unregistered n P) c (\<not> isl r) (e # es) w R w' \<and>
          (\<forall>k j. present w' k j \<longrightarrow> present w k j \<or> id_counter w \<le> j)"
      proof
        assume s: "id_stack w = []"
        with emp st3 have a: "notified (rerender_unregistered n P) c (\<not> isl r) es w3 R w'"
          and b: "\<forall>k j. present w' k j \<longrightarrow> present w3 k j \<or> id_counter w3 \<le> j"
          by simp_all
        have a': "notified (rerender_unregistered n P) c (\<not> isl r) (e # es) w R w'"
          unfolding e using Some un[OF s, unfolded v_def Inr] a[unfolded w3_def]
          by (rule notified.live)
        have b': "\<forall>k j. present w' k j \<longrightarrow> present w k j \<or> id_counter w \<le> j"
        proof (intro allI impI)
          fix k j assume "present w' k j"
          with b have "present w3 k j \<or> id_counter w3 \<le> j" by simp
          then show "present w k j \<or> id_counter w \<le> j"
            using new2[OF s, of k j] c3 by (auto simp: p3)
        qed
        from a' b' show "notified (rerender_unregistered n P) c (\<not> isl r) (e # es) w R w' \<and>
          (\<forall>k j. present w' k j \<longrightarrow> present w k j \<or> id_counter w \<le> j)"
          by (intro conjI)
      qed
      from 1 2 3 4 show ?thesis by (intro exI[of _ R] conjI)
    qed
  qed
qed


lemma set_cell_notified:
  assumes "set_cell n P c x w = Some (r, w')"
  shows "\<exists>R. notified (rerender n P) c (\<not> isl r) (subscribers (cells w c))
           (w\<lparr>cells := (cells w)(c := (cells w c)\<lparr>cell_value := x\<rparr>)\<rparr>) R w' \<and>
       R \<subseteq> fst ` set (subscribers (cells w c)) \<and>
       (\<forall>k j. j < id_counter w \<longrightarrow> (id_stack w \<noteq> [] \<longrightarrow> j \<noteq> fst (last (id_stack w))) \<longrightarrow>
          map_of (subscribers (cells w' k)) j =
            (if k = c \<and> j \<in> R then None else map_of (subscribers (cells w k)) j)) \<and>
       (id_stack w = [] \<longrightarrow>
          notified (rerender_unregistered n P) c (\<not> isl r) (subscribers (cells w c))
            (w\<lparr>cells := (cells w)(c := (cells w c)\<lparr>cell_value := x\<rparr>)\<rparr>) R w' \<and>
          (\<forall>k j. present w' k j \<longrightarrow> present w k j \<or> id_counter w \<le> j))"
proof -
  define wv where "wv = w\<lparr>cells := (cells w)(c := (cells w c)\<lparr>cell_value := x\<rparr>)\<rparr>"
  have s: "\<And>k. subscribers (cells wv k) = subscribers (cells w k)" by (simp add: wv_def)
  have fr: "id_stack wv = id_stack w" "id_counter wv = id_counter w"
    by (simp_all add: wv_def)
  have p: "\<And>k i. present wv k i = present w k i" by (simp add: present_def s)
  from assms have "for_entries n P c (subscribers (cells w c)) wv = Some (r, w')"
    by (simp add: set_cell_def wv_def)
  from for_entries_notified[OF this] show ?thesis
    unfolding s fr p unfolding wv_def .
qed

section \<open>Writing a cell\<close>

lemma viewD:
  "view cs out = Some (r, c, st, ss, lg) \<Longrightarrow>
   \<exists>w'. out = Some (r, w') \<and> id_counter w' = c \<and> id_stack w' = st \<and>
        map (\<lambda>k. subscribers (cells w' k)) cs = ss \<and> console w' = lg"
  by (auto simp: view_def)

text \<open>
  Claim C9, as the code has it.  When \<open>set\<close> is called with the Context Stack
  empty, the pass over the subscribers is the one in which the component function of
  a subscriber is called without any of its reads registering: the description it
  returns is rendered in the very state of the call.  A component reference nested in
  that description gets a fresh context, under which its reads do register.  So the
  write changes the subscriber tables in two ways only: an entry under an identifier
  allocated before the write is deleted when it is an entry of the cell written that
  the pass found not locatable, and is as it was otherwise; and every new entry is
  under an identifier allocated during the write.
\<close>

theorem write_outside_render_registers_only_nested:
  assumes "id_stack w = []" and "set_cell n P c x w = Some (r, w')"
  shows "\<exists>R. notified (rerender_unregistered n P) c (\<not> isl r) (subscribers (cells w c))
             (w\<lparr>cells := (cells w)(c := (cells w c)\<lparr>cell_value := x\<rparr>)\<rparr>) R w' \<and>
           (\<forall>k i. i < id_counter w \<longrightarrow>
              map_of (subscribers (cells w' k)) i =
                (if k = c \<and> i \<in> R then None else map_of (subscribers (cells w k)) i)) \<and>
           (\<forall>k i. present w' k i \<longrightarrow> present w k i \<or> id_counter w \<le> i)"
proof -
  from set_cell_notified[OF assms(2)] assms(1) obtain R where
    a: "notified (rerender_unregistered n P) c (\<not> isl r) (subscribers (cells w c))
             (w\<lparr>cells := (cells w)(c := (cells w c)\<lparr>cell_value := x\<rparr>)\<rparr>) R w'"
    and b: "\<forall>k j. j < id_counter w \<longrightarrow> (id_stack w \<noteq> [] \<longrightarrow> j \<noteq> fst (last (id_stack w))) \<longrightarrow>
          map_of (subscribers (cells w' k)) j =
            (if k = c \<and> j \<in> R then None else map_of (subscribers (cells w k)) j)"
    and d: "\<forall>k j. present w' k j \<longrightarrow> present w k j \<or> id_counter w \<le> j"
    by blast
  from b assms(1) have b': "\<forall>k i. i < id_counter w \<longrightarrow>
              map_of (subscribers (cells w' k)) i =
                (if k = c \<and> i \<in> R then None else map_of (subscribers (cells w k)) i)"
    by simp
  from a b' d show ?thesis by (intro exI[of _ R] conjI)
qed

theorem write_outside_render_registers_only_nested_witness:
  "id_stack after_first_render = [] \<and>
   (\<exists>w' R. set_cell 6 source_prog 1 (JObj [(''title'', JStr ''goodbye crabs'')]) after_first_render =
            Some (Inr (), w') \<and>
         notified (rerender_unregistered 6 source_prog) 1 True (subscribers (cells after_first_render 1))
           (after_first_render\<lparr>cells := (cells after_first_render)
              (1 := (cells after_first_render 1)\<lparr>cell_value := JObj [(''title'', JStr ''goodbye crabs'')]\<rparr>)\<rparr>)
           R w' \<and>
         map_of (subscribers (cells w' 0)) 1 = map_of (subscribers (cells after_first_render 0)) 1 \<and>
         present w' 0 2 \<and> \<not> present after_first_render 0 2 \<and> id_counter after_first_render \<le> 2)"
proof -
  let ?x = "JObj [(''title'', JStr ''goodbye crabs'')]"
  have st: "id_stack after_first_render = []" by code_simp
  have c: "id_counter after_first_render = 2" by code_simp
  have np: "\<not> present after_first_render 0 2" unfolding present_def by code_simp
  have "view [0] (set_cell 6 source_prog 1 ?x after_first_render) =
      Some (Inr (), 3, [], [[(0, JFun 0 []), (1, JFun 1 []), (2, JFun 1 [])]], [LogEntry 0 (JFun 0 [])])"
    by code_simp
  from viewD[OF this] obtain w' where
    run: "set_cell 6 source_prog 1 ?x after_first_render = Some (Inr (), w')"
    and subs: "subscribers (cells w' 0) = [(0, JFun 0 []), (1, JFun 1 []), (2, JFun 1 [])]"
    by auto
  have p: "present w' 0 2" by (simp add: present_def subs)
  from write_outside_render_registers_only_nested [OF st run] obtain R where
    nt: "notified (rerender_unregistered 6 source_prog) 1 True (subscribers (cells after_first_render 1))
           (after_first_render\<lparr>cells := (cells after_first_render)
              (1 := (cells after_first_render 1)\<lparr>cell_value := ?x\<rparr>)\<rparr>) R w'"
    and old: "\<forall>k i. i < id_counter after_first_render \<longrightarrow>
              map_of (subscribers (cells w' k)) i =
                (if k = 1 \<and> i \<in> R then None else map_of (subscribers (cells after_first_render k)) i)"
    and new: "\<forall>k i. present w' k i \<longrightarrow> present after_first_render k i \<or> id_counter after_first_render \<le> i"
    by auto
  from old have "(1::nat) < id_counter after_first_render \<longrightarrow>
      map_of (subscribers (cells w' 0)) 1 =
        (if (0::nat) = 1 \<and> 1 \<in> R then None else map_of (subscribers (cells after_first_render 0)) 1)"
    by blast
  with c have 2: "map_of (subscribers (cells w' 0)) 1 =
      map_of (subscribers (cells after_first_render 0)) 1"
    by simp
  from new p np have 3: "id_counter after_first_render \<le> 2" by blast
  from st run nt 2 p np 3 show ?thesis by blast
qed

text \<open>
  Claim C9 as stated fails on the program of the source: \<open>stuff.set\<close>, called
  with the stack empty, re-renders \<open>myApp\<close>, whose description nests \<open>myComp\<close>;
  the read of \<open>counter\<close> by \<open>myComp\<close> registers the entry 2 in the table of
  \<open>counter\<close>, a cell that was not written, and nothing was deleted.
\<close>

theorem write_outside_render_registers_nested_reads:
  "id_stack after_first_render = [] \<and>
   subscribers (cells after_first_render 0) = [(0, JFun 0 []), (1, JFun 1 [])] \<and>
   view [0, 1] (set_cell 6 source_prog 1 (JObj [(''title'', JStr ''goodbye crabs'')]) after_first_render) =
     Some (Inr (), 3, [], [[(0, JFun 0 []), (1, JFun 1 []), (2, JFun 1 [])], [(0, JFun 0 [])]],
           [LogEntry 0 (JFun 0 [])])"
  by code_simp

text \<open>
  Claim C6, as the code has it.  The loop of \<open>set\<close> runs over the entries as
  \<open>Object.entries\<close> returned them before the loop, so deleting from the table
  during the loop does not disturb it.  When \<open>set\<close> returns, the loop has visited
  every one of these entries once, in their order: an entry whose node was not
  locatable at the moment it was visited has been deleted; for any other entry the
  component has been called, the description it returned rendered, the result stamped
  with the identifier of the entry and put in the place of the located node.  An
  entry under an identifier that was allocated before the write, and that is not the
  identifier of the context on top of the stack, is gone after the write exactly
  when the loop found it not locatable, and is as it was otherwise.
\<close>

theorem write_visits_snapshot_and_rerenders:
  assumes "set_cell n P c x w = Some (Inr u, w')"
  shows "\<exists>R. notified (rerender n P) c True (subscribers (cells w c))
             (w\<lparr>cells := (cells w)(c := (cells w c)\<lparr>cell_value := x\<rparr>)\<rparr>) R w' \<and>
           R \<subseteq> fst ` set (subscribers (cells w c)) \<and>
           (\<forall>e\<in>set (subscribers (cells w c)).
              fst e < id_counter w \<longrightarrow> (id_stack w \<noteq> [] \<longrightarrow> fst e \<noteq> fst (last (id_stack w))) \<longrightarrow>
              map_of (subscribers (cells w' c)) (fst e) =
                (if fst e \<in> R then None else map_of (subscribers (cells w c)) (fst e)))"
proof -
  from set_cell_notified[OF assms] obtain R where
    a: "notified (rerender n P) c True (subscribers (cells w c))
             (w\<lparr>cells := (cells w)(c := (cells w c)\<lparr>cell_value := x\<rparr>)\<rparr>) R w'"
    and sub: "R \<subseteq> fst ` set (subscribers (cells w c))"
    and b: "\<forall>k j. j < id_counter w \<longrightarrow> (id_stack w \<noteq> [] \<longrightarrow> j \<noteq> fst (last (id_stack w))) \<longrightarrow>
          map_of (subscribers (cells w' k)) j =
            (if k = c \<and> j \<in> R then None else map_of (subscribers (cells w k)) j)"
    by auto
  from b have "\<forall>e\<in>set (subscribers (cells w c)).
              fst e < id_counter w \<longrightarrow> (id_stack w \<noteq> [] \<longrightarrow> fst e \<noteq> fst (last (id_stack w))) \<longrightarrow>
              map_of (subscribers (cells w' c)) (fst e) =
                (if fst e \<in> R then None else map_of (subscribers (cells w c)) (fst e))"
    by simp
  with a sub show ?thesis by (intro exI[of _ R] conjI)
qed

theorem write_visits_snapshot_and_rerenders_witness:
  "\<exists>w' R. set_cell 6 source_prog 0 (JNum 1) after_second_render = Some (Inr (), w') \<and>
      notified (rerender 6 source_prog) 0 True (subscribers (cells after_second_render 0))
        (after_second_render\<lparr>cells := (cells after_second_render)
           (0 := (cells after_second_render 0)\<lparr>cell_value := JNum 1\<rparr>)\<rparr>) R w' \<and>
      map_of (subscribers (cells w' 0)) 0 = (if 0 \<in> R then None else Some (JFun 0 [])) \<and>
      map_of (subscribers (cells w' 0)) 2 = (if 2 \<in> R then None else Some (JFun 0 []))"
proof -
  have st: "id_stack after_second_render = []" by code_simp
  have c: "id_counter after_second_render = 4" by code_simp
  have subs: "subscribers (cells after_second_render 0) =
      [(0, JFun 0 []), (1, JFun 1 []), (2, JFun 0 []), (3, JFun 1 [])]"
    by code_simp
  have "view [] (set_cell 6 source_prog 0 (JNum 1) after_second_render) =
      Some (Inr (), 5, [], [],
           [LogEntry 0 (JFun 0 []), LogEntry 1 (JFun 1 []), LogFreeing 1,
            LogEntry 2 (JFun 0 []), LogFreeing 2, LogEntry 3 (JFun 1 []), LogFreeing 3])"
    by code_simp
  from viewD[OF this] obtain w' where
    run: "set_cell 6 source_prog 0 (JNum 1) after_second_render = Some (Inr (), w')"
    by auto
  from write_visits_snapshot_and_rerenders [OF run] obtain R where
    nt: "notified (rerender 6 source_prog) 0 True (subscribers (cells after_second_render 0))
        (after_second_render\<lparr>cells := (cells after_second_render)
           (0 := (cells after_second_render 0)\<lparr>cell_value := JNum 1\<rparr>)\<rparr>) R w'"
    and ex: "\<forall>e\<in>set (subscribers (cells after_second_render 0)).
              fst e < id_counter after_second_render \<longrightarrow>
              (id_stack after_second_render \<noteq> [] \<longrightarrow> fst e \<noteq> fst (last (id_stack after_second_render))) \<longrightarrow>
              map_of (subscribers (cells w' 0)) (fst e) =
                (if fst e \<in> R then None else map_of (subscribers (cells after_second_render 0)) (fst e))"
    by blast
  from ex have "map_of (subscribers (cells w' 0)) 0 = (if 0 \<in> R then None else Some (JFun 0 []))"
    and "map_of (subscribers (cells w' 0)) 2 = (if 2 \<in> R then None else Some (JFun 0 []))"
    by (simp_all add: subs c st)
  with run nt show ?thesis by blast
qed

text \<open>
  Claim C6 as stated fails on the program of the source.  After \<open>myApp\<close> was
  rendered twice and only the first result put into the document, the table of
  \<open>counter\<close> has the live entries 0 and 1 and the stale entries 2 and 3.
  \<open>counter.set(1)\<close> deletes the stale entries and the entry 1 as well: the node of
  context 1 was inside the node of context 0 and went with it when context 0 was
  re-rendered.
\<close>

theorem write_removes_live_nested_entry:
  "querySelector (string_of_nat 1) (document after_second_render) \<noteq> None \<and>
   querySelector (string_of_nat 2) (document after_second_render) = None \<and>
   subscribers (cells after_second_render 0) =
     [(0, JFun 0 []), (1, JFun 1 []), (2, JFun 0 []), (3, JFun 1 [])] \<and>
   view [0] (set_cell 6 source_prog 0 (JNum 1) after_second_render) =
     Some (Inr (), 5, [], [[(0, JFun 0 []), (4, JFun 1 [])]],
           [LogEntry 0 (JFun 0 []), LogEntry 1 (JFun 1 []), LogFreeing 1,
            LogEntry 2 (JFun 0 []), LogFreeing 2, LogEntry 3 (JFun 1 []), LogFreeing 3])"
  by code_simp

section \<open>Re-rendering a subscriber\<close>

lemma query_stamped: "has_uid u new \<Longrightarrow> query u new = Some new"
  by (cases new) simp_all

lemma query_replace:
  "has_uid u new \<Longrightarrow> query u d = Some e \<Longrightarrow> query u (replace u new d) = Some new"
  "has_uid u new \<Longrightarrow> querySelector u ds = Some e \<Longrightarrow>
   querySelector u (replaceWith u new ds) = Some new"
proof (induction u d and u ds arbitrary: e and e rule: query_querySelector.induct)
  case (1 u s)
  then show ?case by simp
next
  case (2 u t as ps cs kids)
  show ?case
  proof (cases "has_uid u (Element t as ps cs kids)")
    case True
    then have "replace u new (Element t as ps cs kids) = new" by simp
    with query_stamped[OF "2.prems"(1)] show ?thesis by simp
  next
    case False
    with "2.prems" have "querySelector u kids = Some e" by simp
    from "2.IH"[OF False "2.prems"(1) this] False show ?thesis by simp
  qed
next
  case (3 u)
  then show ?case by simp
next
  case (4 u d ds)
  show ?case
  proof (cases "query u d")
    case None
    with "4.prems" have "querySelector u ds = Some e" by simp
    from "4.IH"(2)[OF None "4.prems"(1) this] None show ?thesis by simp
  next
    case (Some e')
    from "4.IH"(1)[OF "4.prems"(1) Some] Some show ?thesis by simp
  qed
qed

text \<open>
  Claim C2, as the code has it.  For a subscriber whose node is locatable when the
  loop of \<open>set\<close> reaches it, \<open>set\<close> calls the component function itself,
  \<open>node()\<close>, under the Context Stack as it is: no context is pushed and no
  identifier allocated for that call.  When the call returns a description that the
  renderer turns into an element, the loop goes on with the document in which the old
  node has been replaced by that element, stamped with the same identifier as before;
  looking the identifier up in the new document finds the new node.
\<close>

theorem write_rerenders_live_subscriber_in_place:
  assumes "querySelector (string_of_nat i) (document w) = Some el"
    and "run_comp (P f args) (w\<lparr>console := console w @ [LogEntry i (JFun f args)]\<rparr>) = (Inr d, w1)"
    and "RenderDOM n P d w1 = Some (Inr (Some (Element t as ps cs kids)), w2)"
  shows "id_stack w1 = id_stack w \<and> id_counter w1 = id_counter w \<and>
         for_entries n P c ((i, JFun f args) # es) w =
           for_entries n P c es
             (w2\<lparr>document := replaceWith (string_of_nat i)
                (Element t (put ''data-uid'' (string_of_nat i) as) ps cs kids) (document w)\<rparr>) \<and>
         querySelector (string_of_nat i)
           (replaceWith (string_of_nat i)
              (Element t (put ''data-uid'' (string_of_nat i) as) ps cs kids) (document w)) =
           Some (Element t (put ''data-uid'' (string_of_nat i) as) ps cs kids)"
proof -
  let ?v = "w\<lparr>console := console w @ [LogEntry i (JFun f args)]\<rparr>"
  let ?new = "Element t (put ''data-uid'' (string_of_nat i) as) ps cs kids"
  have fr: "id_stack w1 = id_stack w" "id_counter w1 = id_counter w" "document w1 = document w"
    using run_comp_frame[of "P f args" ?v] assms(2) by simp_all
  from RenderDOM_balanced[OF assms(3)] have d2: "document w2 = document w"
    by (simp add: balanced_def extends_def fr)
  have step: "for_entries n P c ((i, JFun f args) # es) w =
      for_entries n P c es (w2\<lparr>document := replaceWith (string_of_nat i) ?new (document w)\<rparr>)"
    using assms by (simp add: for_entries_Cons d2)
  have "has_uid (string_of_nat i) ?new" by (simp add: map_of_put)
  from query_replace(2)[OF this assms(1)] fr step show ?thesis by simp
qed

theorem write_rerenders_live_subscriber_in_place_witness:
  "\<exists>w'. for_entries 1 sample_prog 0 [(0, JFun 0 [JArr [JStr ''p'']])]
          (mount (Element ''div'' [(''data-uid'', ''0'')] [] [] []) source_world) = Some (Inr (), w') \<and>
        querySelector ''0'' (document w') = Some (Element ''p'' [(''data-uid'', ''0'')] [] [] [])"
proof -
  let ?node = "JFun 0 [JArr [JStr ''p'']]"
  let ?w = "mount (Element ''div'' [(''data-uid'', ''0'')] [] [] []) source_world"
  let ?v = "?w\<lparr>console := console ?w @ [LogEntry 0 ?node]\<rparr>"
  let ?new = "Element ''p'' (put ''data-uid'' (string_of_nat 0) []) [] [] []"
  let ?u = "?v\<lparr>document := replaceWith (string_of_nat 0) ?new (document ?w)\<rparr>"
  have s: "string_of_nat 0 = ''0''" by code_simp
  have doc: "document ?w = [Element ''body'' [] [] [] [Element ''div'' [(''data-uid'', ''0'')] [] [] []]]"
    by (simp add: mount_def createElement_def)
  have h1: "querySelector (string_of_nat 0) (document ?w) = Some (Element ''div'' [(''data-uid'', ''0'')] [] [] [])"
    by (simp add: doc s)
  have h2: "run_comp (sample_prog 0 [JArr [JStr ''p'']]) ?v = (Inr (JArr [JStr ''p'']), ?v)"
    by (simp add: sample_prog_def)
  have e: "element_of [JStr ''p''] = Inr (Element ''p'' [] [] [] [], [])" by code_simp
  have h3: "RenderDOM 1 sample_prog (JArr [JStr ''p'']) ?v = Some (Inr (Some (Element ''p'' [] [] [] [])), ?v)"
    by (simp add: RenderDOM_JArr e)
  note inst = write_rerenders_live_subscriber_in_place [OF h1 h2 h3, of 0 "[]"]
  from inst have a: "for_entries 1 sample_prog 0 [(0, ?node)] ?w = Some (Inr (), ?u)"
    by (simp only: for_entries.simps(1))
  from inst have "querySelector (string_of_nat 0) (replaceWith (string_of_nat 0) ?new (document ?w)) = Some ?new"
    by (elim conjE)
  then have b: "querySelector ''0'' (document ?u) = Some (Element ''p'' [(''data-uid'', ''0'')] [] [] [])"
    by (simp add: s)
  from a b show ?thesis by (rule exI[of _ ?u, OF conjI])
qed

text \<open>
  Claim C2 as stated fails on the program of the source.  \<open>counter.set(1)\<close>
  re-renders \<open>myApp\<close>, the subscriber of context 0.  It allocates one identifier
  only, for the nested \<open>myComp\<close>, and the reads of \<open>myApp\<close> register nothing: the
  table of \<open>stuff\<close>, which \<open>myApp\<close> reads, is unchanged.  A fresh render of
  \<open>myApp\<close> through the renderer, in the same state, pushes a context for
  \<open>myApp\<close> as well: it allocates two identifiers and registers \<open>myApp\<close> under the
  new identifier 2 in both tables.
\<close>

theorem write_pushes_no_context_for_subscriber:
  "view [0, 1] (set_cell 6 source_prog 0 (JNum 1) after_first_render) =
     Some (Inr (), 3, [], [[(0, JFun 0 []), (2, JFun 1 [])], [(0, JFun 0 [])]],
           [LogEntry 0 (JFun 0 []), LogEntry 1 (JFun 1 []), LogFreeing 1]) \<and>
   map_option (\<lambda>(r, c, st, ss, lg). (c, st, ss))
       (view [0, 1] (RenderDOM 6 source_prog (JFun 0 []) after_first_render)) =
     Some (4, [], [[(0, JFun 0 []), (1, JFun 1 []), (2, JFun 0 []), (3, JFun 1 [])],
                   [(0, JFun 0 []), (2, JFun 0 [])]])"
  by code_simp

section \<open>The subscriber tables over time\<close>

text \<open>
  Claim C3, as the code has it.  An entry is made only by a read of the cell while a
  context is active, under the identifier of that context; rendering never removes an
  entry and adds entries only under identifiers it allocates; a write removes entries
  only from the table of the cell written, and only entries whose node was not
  locatable at the moment the loop visited them.  Nothing removes an entry because
  the latest invocation of its component did not read the cell.
\<close>

theorem entries_made_by_reads_removed_by_writes:
  "(\<forall>k. map_of (subscribers (cells (snd (get_value c w)) k)) =
          (if k = c \<and> id_stack w \<noteq> []
           then (map_of (subscribers (cells w k)))(fst (last (id_stack w)) \<mapsto> snd (last (id_stack w)))
           else map_of (subscribers (cells w k)))) \<and>
   (\<forall>r1 w1. RenderDOM n P node w = Some (r1, w1) \<longrightarrow>
      (\<forall>k i. (present w k i \<longrightarrow> present w1 k i) \<and>
             (present w1 k i \<longrightarrow> present w k i \<or> (id_counter w \<le> i \<and> i < id_counter w1)))) \<and>
   (\<forall>r2 w2. set_cell n P c x w = Some (r2, w2) \<longrightarrow>
      (\<exists>R. sweep (\<not> isl r2) (subscribers (cells w c)) (document w) R (document w2) \<and>
           (\<forall>k i. present w k i \<and> \<not> present w2 k i \<longrightarrow> k = c \<and> i \<in> R)))"
proof (intro conjI allI impI)
  fix k
  show "map_of (subscribers (cells (snd (get_value c w)) k)) =
          (if k = c \<and> id_stack w \<noteq> []
           then (map_of (subscribers (cells w k)))(fst (last (id_stack w)) \<mapsto> snd (last (id_stack w)))
           else map_of (subscribers (cells w k)))"
    by (simp add: get_value_def current_id_def map_of_assign)
next
  fix r1 w1 k i
  assume "RenderDOM n P node w = Some (r1, w1)"
  from RenderDOM_balanced[OF this] have e: "extends w w1" by (simp add: balanced_def)
  { assume "present w k i" with e show "present w1 k i" by (simp add: extends_def) }
  { assume "present w1 k i"
    with e show "present w k i \<or> (id_counter w \<le> i \<and> i < id_counter w1)"
      by (simp add: extends_def) }
next
  fix r2 w2
  assume "set_cell n P c x w = Some (r2, w2)"
  from set_cell_sweep[OF this]
  show "\<exists>R. sweep (\<not> isl r2) (subscribers (cells w c)) (document w) R (document w2) \<and>
           (\<forall>k i. present w k i \<and> \<not> present w2 k i \<longrightarrow> k = c \<and> i \<in> R)"
    by blast
qed


theorem entries_made_by_reads_removed_by_writes_witness:
  "present cond_mounted 1 0 \<and>
   (\<exists>r w2. set_cell 3 cond_prog 0 (JBool False) cond_mounted = Some (r, w2) \<and> present w2 1 0) \<and>
   (\<exists>r w1. RenderDOM 3 cond_prog (JFun 0 []) cond_world = Some (r, w1) \<and> present w1 1 0 \<and>
      0 < id_counter w1)"
proof -
  have p: "present cond_mounted 1 0" unfolding present_def by code_simp
  have np: "\<not> present cond_world 1 0" unfolding present_def by code_simp
  have "view [] (set_cell 3 cond_prog 0 (JBool False) cond_mounted) =
      Some (Inr (), 1, [], [], [LogEntry 0 (JFun 0 [])])"
    by code_simp
  from viewD[OF this] obtain w2 where
    run: "set_cell 3 cond_prog 0 (JBool False) cond_mounted = Some (Inr (), w2)" by auto
  have "view [1] (RenderDOM 3 cond_prog (JFun 0 []) cond_world) =
      Some (Inr (Some (Element ''p'' [(''data-uid'', ''0'')] [] [] [TextNode ''x''])), 1, [],
            [[(0, JFun 0 [])]], [])"
    by code_simp
  from viewD[OF this] obtain w1 where
    ren: "RenderDOM 3 cond_prog (JFun 0 []) cond_world =
        Some (Inr (Some (Element ''p'' [(''data-uid'', ''0'')] [] [] [TextNode ''x''])), w1)"
    and subs: "subscribers (cells w1 1) = [(0, JFun 0 [])]"
    by auto
  have p1: "present w1 1 0" using subs by (simp add: present_def)
  note a = entries_made_by_reads_removed_by_writes [of 0 cond_mounted 3 cond_prog "JFun 0 []" "JBool False"]
  note b = entries_made_by_reads_removed_by_writes [of 0 cond_world 3 cond_prog "JFun 0 []" "JBool False"]
  from a run obtain R where
    "\<forall>k i. present cond_mounted k i \<and> \<not> present w2 k i \<longrightarrow> k = 0 \<and> i \<in> R"
    by blast
  with p have 1: "present w2 1 0" by auto
  from b ren have "present w1 1 0 \<longrightarrow> present cond_world 1 0 \<or> (id_counter cond_world \<le> 0 \<and> 0 < id_counter w1)"
    by blast
  with p1 np have 2: "0 < id_counter w1" by simp
  from p run 1 ren p1 2 show ?thesis by blast
qed

text \<open>
  Claim C3 as stated fails.  The component of \<open>cond_prog\<close> was rendered while the
  flag was truthy and is a subscriber of both cells.  Writing \<open>false\<close> to the flag
  re-invokes it, in the state given below; that invocation, its most recent one, reads
  the cell at address 0 only.  After the write the table of the cell at address 1
  still has the entry of context 0.
\<close>

theorem entry_survives_invocation_without_read:
  "view [0, 1] (set_cell 3 cond_prog 0 (JBool False) cond_mounted) =
     Some (Inr (), 1, [], [[(0, JFun 0 [])], [(0, JFun 0 [])]], [LogEntry 0 (JFun 0 [])]) \<and>
   reads_of (cond_prog 0 [])
     (cond_mounted\<lparr>cells := (cells cond_mounted)(0 := (cells cond_mounted 0)\<lparr>cell_value := JBool False\<rparr>),
        console := [LogEntry 0 (JFun 0 [])]\<rparr>) = [0]"
  by code_simp

end
